theory Spec2Isabelle
  imports Main "HOL-Library.Sublist" "HOL-Library.List_Lexorder"
begin

section \<open>Text\<close>

text \<open>
  Python strings are sequences of Unicode code points, so a text is a list of code points
  (natural numbers); \<open>asc\<close> turns an ASCII literal into such a text. What Python takes from
  the Unicode character database for code points from 128 on (which of them are
  alphanumeric, which are whitespace, and the case folding that \<open>re.IGNORECASE\<close> compares
  by) is not part of the repository: it is the parameter \<open>U\<close> of everything below. For
  the ASCII range the three tables are written out.
\<close>

type_synonym ustr = "nat list"

definition ch :: "char \<Rightarrow> nat" where
  "ch c = of_char c"

definition asc :: "string \<Rightarrow> ustr" where
  "asc s = map ch s"

record unicode_db =
  uni_alnum :: "nat \<Rightarrow> bool"
  uni_space :: "nat \<Rightarrow> bool"
  uni_fold :: "nat \<Rightarrow> nat"

text \<open>The class \<open>\w\<close> of a \<open>str\<close> pattern: alphanumeric or underscore.\<close>

definition is_word :: "unicode_db \<Rightarrow> nat \<Rightarrow> bool" where
  "is_word U c = (if c < 128
     then (48 \<le> c \<and> c \<le> 57) \<or> (65 \<le> c \<and> c \<le> 90) \<or> (97 \<le> c \<and> c \<le> 122) \<or> c = 95
     else uni_alnum U c)"

text \<open>
  The class \<open>\s\<close>, which is also what \<open>str.strip()\<close> removes: in the ASCII range the
  code points 9 to 13 and 28 to 32.
\<close>

definition is_space :: "unicode_db \<Rightarrow> nat \<Rightarrow> bool" where
  "is_space U c = (if c < 128 then (9 \<le> c \<and> c \<le> 13) \<or> (28 \<le> c \<and> c \<le> 32) else uni_space U c)"

text \<open>Two code points are equal under \<open>re.IGNORECASE\<close> when they have the same key.\<close>

definition casekey :: "unicode_db \<Rightarrow> nat \<Rightarrow> nat" where
  "casekey U c = (if c < 128 then (if 65 \<le> c \<and> c \<le> 90 then c + 32 else c) else uni_fold U c)"

text \<open>\<open>sub in s\<close> on strings.\<close>

fun contains :: "ustr \<Rightarrow> ustr \<Rightarrow> bool" where
  "contains sub [] = (sub = [])"
| "contains sub (c # s) = (prefix sub (c # s) \<or> contains sub s)"

text \<open>\<open>s.strip()\<close>: leading and trailing whitespace removed.\<close>

definition strip :: "unicode_db \<Rightarrow> ustr \<Rightarrow> ustr" where
  "strip U s = rev (dropWhile (is_space U) (rev (dropWhile (is_space U) s)))"

section \<open>Regular expressions as \<open>re\<close> runs them\<close>

text \<open>
  The patterns of the crawler use literals, character sets, \<open>?\<close>, \<open>*\<close>, \<open>+\<close>,
  \<open>{n}\<close> and capture groups, and every search passes \<open>re.IGNORECASE\<close>. A set item is
  a character, a range, \<open>\w\<close> or \<open>\s\<close>; \<open>Cls True\<close> is a negated set \<open>[^...]\<close>.
  \<open>Grp k r\<close> is the k-th pair of parentheses of the pattern.
\<close>

datatype citem = CChar nat | CRange nat nat | CWord | CSpace

datatype re = Lit nat | Cls bool "citem list" | Eps | Seq re re | Opt re | Star re | Plus re
  | Rep nat re | Grp nat re

fun item_match :: "unicode_db \<Rightarrow> nat \<Rightarrow> citem \<Rightarrow> bool" where
  "item_match U t (CChar c) = (casekey U t = casekey U c)"
| "item_match U t (CRange a b) = list_ex (\<lambda>c. casekey U t = casekey U c) [a..<Suc b]"
| "item_match U t CWord = is_word U t"
| "item_match U t CSpace = is_space U t"

text \<open>
  A matcher state is the text still to be read and the captures made so far (the latest
  capture of a group first). \<open>re_match U r x\<close> lists the states in which \<open>r\<close> can end
  when started in \<open>x\<close>, in the order in which the backtracking engine tries them: the
  quantifiers are greedy, so the longer repetition comes before the shorter. The engine
  takes the head of that list. A repetition goes round again only when the round before
  read something, which also bounds the rounds by the length of the text.
\<close>

type_synonym mstate = "ustr \<times> (nat \<times> ustr) list"

fun star_iter :: "nat \<Rightarrow> (mstate \<Rightarrow> mstate list) \<Rightarrow> mstate \<Rightarrow> mstate list" where
  "star_iter 0 f x = [x]"
| "star_iter (Suc n) f x =
     concat (map (\<lambda>y. if length (fst y) < length (fst x) then star_iter n f y else []) (f x)) @ [x]"

fun rep_iter :: "nat \<Rightarrow> (mstate \<Rightarrow> mstate list) \<Rightarrow> mstate \<Rightarrow> mstate list" where
  "rep_iter 0 f x = [x]"
| "rep_iter (Suc n) f x = concat (map (rep_iter n f) (f x))"

primrec re_match :: "unicode_db \<Rightarrow> re \<Rightarrow> mstate \<Rightarrow> mstate list" where
  "re_match U (Lit c) = (\<lambda>(s, g). case s of [] \<Rightarrow> [] | t # s' \<Rightarrow>
       if casekey U t = casekey U c then [(s', g)] else [])"
| "re_match U (Cls neg items) = (\<lambda>(s, g). case s of [] \<Rightarrow> [] | t # s' \<Rightarrow>
       if list_ex (item_match U t) items \<noteq> neg then [(s', g)] else [])"
| "re_match U Eps = (\<lambda>x. [x])"
| "re_match U (Seq r1 r2) = (\<lambda>x. concat (map (re_match U r2) (re_match U r1 x)))"
| "re_match U (Opt r) = (\<lambda>x. re_match U r x @ [x])"
| "re_match U (Star r) = (\<lambda>x. star_iter (length (fst x)) (re_match U r) x)"
| "re_match U (Plus r) =
     (\<lambda>x. concat (map (\<lambda>y. star_iter (length (fst y)) (re_match U r) y) (re_match U r x)))"
| "re_match U (Rep n r) = (\<lambda>x. rep_iter n (re_match U r) x)"
| "re_match U (Grp k r) = (\<lambda>(s, g).
       map (\<lambda>(s', g'). (s', (k, take (length s - length s') s) # g')) (re_match U r (s, g)))"

primrec ngroups :: "re \<Rightarrow> nat" where
  "ngroups (Lit c) = 0"
| "ngroups (Cls neg items) = 0"
| "ngroups Eps = 0"
| "ngroups (Seq r1 r2) = ngroups r1 + ngroups r2"
| "ngroups (Opt r) = ngroups r"
| "ngroups (Star r) = ngroups r"
| "ngroups (Plus r) = ngroups r"
| "ngroups (Rep n r) = ngroups r"
| "ngroups (Grp k r) = Suc (ngroups r)"

text \<open>
  \<open>re.findall\<close> returns, for each match, the whole match when the pattern has no group,
  the group when it has one, and the tuple of all groups when it has more; a group that
  took no part in the match reads as the empty string.
\<close>

datatype found = Str ustr | Tuple "ustr list"

definition group_val :: "(nat \<times> ustr) list \<Rightarrow> nat \<Rightarrow> ustr" where
  "group_val g k = (case map_of g k of None \<Rightarrow> [] | Some w \<Rightarrow> w)"

definition result_of :: "re \<Rightarrow> ustr \<Rightarrow> mstate \<Rightarrow> found" where
  "result_of r s x = (case x of (s', g) \<Rightarrow>
     if ngroups r = 0 then Str (take (length s - length s') s)
     else if ngroups r = 1 then Str (group_val g 1)
     else Tuple (map (group_val g) [1..<Suc (ngroups r)]))"

text \<open>
  The scan: try the pattern at the current position; on a match, record it and go on
  behind it (one character on when the match was empty); otherwise go one character on.
\<close>

function findall :: "unicode_db \<Rightarrow> re \<Rightarrow> ustr \<Rightarrow> found list" where
  "findall U r s = (case re_match U r (s, []) of
       [] \<Rightarrow> (case s of [] \<Rightarrow> [] | t # s' \<Rightarrow> findall U r s')
     | x # _ \<Rightarrow> result_of r s x #
         (if length (fst x) < length s then findall U r (fst x)
          else (case s of [] \<Rightarrow> [] | t # s' \<Rightarrow> findall U r s')))"
  by pat_completeness auto
termination
  by (relation "measure (\<lambda>(U, r, s). length s)") auto

declare findall.simps [simp del]

section \<open>The pattern catalogue\<close>

definition lits :: "string \<Rightarrow> re" where
  "lits s = foldr (\<lambda>c r. Seq (Lit (ch c)) r) s Eps"

definition ulits :: "ustr \<Rightarrow> re" where
  "ulits s = foldr (\<lambda>c r. Seq (Lit c) r) s Eps"

definition cat :: "re list \<Rightarrow> re" where
  "cat rs = foldr Seq rs Eps"

text \<open>\<open>https?\<close>\<close>

definition http_s :: re where
  "http_s = Seq (lits ''http'') (Opt (Lit (ch CHR ''s'')))"

text \<open>\<open>[\w\-]\<close>\<close>

definition tok :: re where
  "tok = Cls False [CWord, CChar (ch CHR ''-'')]"

text \<open>\<open>[a-fA-F0-9]\<close> and \<open>[A-F0-9]\<close>\<close>

definition hex_lower_upper :: re where
  "hex_lower_upper = Cls False [CRange (ch CHR ''a'') (ch CHR ''f''),
     CRange (ch CHR ''A'') (ch CHR ''F''), CRange (ch CHR ''0'') (ch CHR ''9'')]"

definition hex_upper :: re where
  "hex_upper = Cls False [CRange (ch CHR ''A'') (ch CHR ''F''), CRange (ch CHR ''0'') (ch CHR ''9'')]"

text \<open>
  The two patterns with a second group:
  \<open>(https?://115cdn\.com/s/[\w\-]+(\?password=[\w\-]+)?#?)\<close> and
  \<open>(magnet:\?xt=urn:btih:[a-fA-F0-9]{40}(&[\w\-\=]+)*)\<close>; then
  \<open>(ed2k://\|file\|[^\|]+\|[0-9]+\|[A-F0-9]{32}\|/)\<close>.
\<close>

definition pat_115cdn :: re where
  "pat_115cdn = Grp 1 (cat [http_s, lits ''://115cdn.com/s/'', Plus tok,
     Opt (Grp 2 (Seq (lits ''?password='') (Plus tok))), Opt (Lit (ch CHR ''#''))])"

definition pat_magnet :: re where
  "pat_magnet = Grp 1 (cat [lits ''magnet:?xt=urn:btih:'', Rep 40 hex_lower_upper,
     Star (Grp 2 (Seq (Lit (ch CHR ''&''))
       (Plus (Cls False [CWord, CChar (ch CHR ''-''), CChar (ch CHR ''='')]))))])"

definition pat_ed2k :: re where
  "pat_ed2k = Grp 1 (cat [lits ''ed2k://|file|'', Plus (Cls True [CChar (ch CHR ''|'')]),
     lits ''|'', Plus (Cls False [CRange (ch CHR ''0'') (ch CHR ''9'')]), lits ''|'',
     Rep 32 hex_upper, lits ''|/''])"

text \<open>\<open>self.link_patterns\<close>, in the order of the source.\<close>

definition link_patterns :: "re list" where
  "link_patterns = [
     Grp 1 (cat [http_s, lits ''://pan.baidu.com/s/'', Plus tok]),
     Grp 1 (cat [http_s, lits ''://yun.baidu.com/s/'', Plus tok]),
     Grp 1 (cat [http_s, lits ''://www.aliyundrive.com/s/'', Plus tok]),
     Grp 1 (cat [http_s, lits ''://aliyundrive.com/s/'', Plus tok]),
     Grp 1 (cat [http_s, lits ''://quark.cn/s/'', Plus tok]),
     Grp 1 (cat [http_s, lits ''://cloud.189.cn/web/share?code='', Plus tok]),
     Grp 1 (cat [http_s, lits ''://cloud.189.cn/t/'', Plus tok]),
     Grp 1 (cat [http_s, lits ''://drive.uc.cn/s/'', Plus tok]),
     Grp 1 (cat [http_s, lits ''://cloud.10086.cn/t/'', Plus tok]),
     Grp 1 (cat [http_s, lits ''://115.com/lb/?s='', Plus tok]),
     pat_115cdn,
     Grp 1 (cat [http_s, lits ''://api.pikpak.com/drive/v1/files/'', Plus tok, lits ''/share'']),
     Grp 1 (cat [http_s, lits ''://pikpak.com/s/'', Plus tok]),
     Grp 1 (cat [http_s, lits ''://pan.xunlei.com/s/'', Plus tok]),
     Grp 1 (cat [http_s, lits ''://www.123pan.com/s/'', Plus tok]),
     pat_magnet,
     pat_ed2k]"

text \<open>
  \<open>s_link_patterns\<close> of \<open>_extract_s_links\<close>; the last one is the generic
  \<open>(https?://[\w\-]+\.[\w\-]+/s/[\w\-]+)\<close>.
\<close>

definition s_link_patterns :: "re list" where
  "s_link_patterns = [
     Grp 1 (cat [http_s, lits ''://pan.baidu.com/s/'', Plus tok]),
     Grp 1 (cat [http_s, lits ''://yun.baidu.com/s/'', Plus tok]),
     Grp 1 (cat [http_s, lits ''://www.aliyundrive.com/s/'', Plus tok]),
     Grp 1 (cat [http_s, lits ''://aliyundrive.com/s/'', Plus tok]),
     Grp 1 (cat [http_s, lits ''://quark.cn/s/'', Plus tok]),
     Grp 1 (cat [http_s, lits ''://drive.uc.cn/s/'', Plus tok]),
     pat_115cdn,
     Grp 1 (cat [http_s, lits ''://pikpak.com/s/'', Plus tok]),
     Grp 1 (cat [http_s, lits ''://pan.xunlei.com/s/'', Plus tok]),
     Grp 1 (cat [http_s, lits ''://www.123pan.com/s/'', Plus tok]),
     Grp 1 (cat [http_s, lits ''://'', Plus tok, lits ''.'', Plus tok, lits ''/s/'', Plus tok])]"

text \<open>
  \<open>self.cloud_domains\<close>. The labels that are not ASCII are given by their code points;
  each of them ends in the two characters 32593, 30424 or 20113, 30424.
\<close>

definition cloud_domains :: "(string \<times> ustr list) list" where
  "cloud_domains = [
     (''baidu'', [asc ''pan.baidu.com'', asc ''yun.baidu.com'', [30334, 24230, 32593, 30424]]),
     (''aliyun'', [asc ''aliyundrive.com'', [38463, 37324, 20113, 30424]]),
     (''quark'', [asc ''quark.cn'', [22840, 20811, 32593, 30424]]),
     (''tianyi'', [asc ''cloud.189.cn'', [22825, 32764, 20113, 30424]]),
     (''uc'', [asc ''drive.uc.cn'', asc ''UC'' @ [32593, 30424]]),
     (''mobile'', [asc ''cloud.10086.cn'', [31227, 21160, 20113, 30424]]),
     (''115'', [asc ''115.com'', asc ''115cdn.com'', asc ''115'' @ [32593, 30424]]),
     (''pikpak'', [asc ''pikpak.com'', asc ''PikPak'']),
     (''xunlei'', [asc ''pan.xunlei.com'', [36805, 38647, 32593, 30424]]),
     (''123'', [asc ''123pan.com'', asc ''123'' @ [32593, 30424]]),
     (''magnet'', [asc ''magnet:?xt='']),
     (''ed2k'', [asc ''ed2k://''])]"

text \<open>
  The pattern the domain pass builds around a label \<open>d\<close>:
  \<open>(https?://[\w\-]+\.?\<close> then \<open>re.escape(d)\<close> then \<open>[\w\-/.?&=%]+)\<close>.
\<close>

definition domain_pattern :: "ustr \<Rightarrow> re" where
  "domain_pattern d = Grp 1 (cat [http_s, lits ''://'', Plus tok, Opt (Lit (ch CHR ''.'')), ulits d,
     Plus (Cls False [CWord, CChar (ch CHR ''-''), CChar (ch CHR ''/''), CChar (ch CHR ''.''),
       CChar (ch CHR ''?''), CChar (ch CHR ''&''), CChar (ch CHR ''=''), CChar (ch CHR ''%'')])])"

text \<open>
  \<open>(magnet:\?[^\s"']+)\<close> and \<open>(ed2k://[^\s"']+)\<close>; 34 and 39 are the two quote
  characters.
\<close>

definition magnet_pattern :: re where
  "magnet_pattern = Grp 1 (Seq (lits ''magnet:?'') (Plus (Cls True [CSpace, CChar 34, CChar 39])))"

definition ed2k_pattern :: re where
  "ed2k_pattern = Grp 1 (Seq (lits ''ed2k://'') (Plus (Cls True [CSpace, CChar 34, CChar 39])))"

section \<open>Link extraction\<close>

text \<open>
  The loop over the matches of one pattern: of a tuple the first group that is not empty
  is added, and nothing when all are empty; a string is added as it is.
\<close>

fun first_nonempty :: "ustr list \<Rightarrow> ustr option" where
  "first_nonempty [] = None"
| "first_nonempty (g # gs) = (if g \<noteq> [] then Some g else first_nonempty gs)"

fun add_match :: "ustr set \<Rightarrow> found \<Rightarrow> ustr set" where
  "add_match links (Tuple gs) = (case first_nonempty gs of Some g \<Rightarrow> insert g links | None \<Rightarrow> links)"
| "add_match links (Str s) = insert s links"

definition add_matches :: "unicode_db \<Rightarrow> ustr \<Rightarrow> ustr set \<Rightarrow> re \<Rightarrow> ustr set" where
  "add_matches U content links pattern = foldl add_match links (findall U pattern content)"

definition extract_s_links :: "unicode_db \<Rightarrow> ustr \<Rightarrow> ustr set" where
  "extract_s_links U content = foldl (add_matches U content) {} s_link_patterns"

text \<open>
  \<open>links.update(matches)\<close> of the domain pass and of the two wide patterns. Those
  patterns have one group, so \<open>findall\<close> gives strings there.
\<close>

fun strs :: "found list \<Rightarrow> ustr list" where
  "strs [] = []"
| "strs (Str s # ms) = s # strs ms"
| "strs (Tuple gs # ms) = strs ms"

definition update :: "ustr set \<Rightarrow> found list \<Rightarrow> ustr set" where
  "update links matches = links \<union> set (strs matches)"

text \<open>\<open>re.sub(r'[^\u4e00-\u9fa5]', '', domain)\<close>\<close>

definition cjk_only :: "ustr \<Rightarrow> ustr" where
  "cjk_only domain = filter (\<lambda>c. 19968 \<le> c \<and> c \<le> 40869) domain"

text \<open>The body of the inner loop of the domain pass, for one label.\<close>

definition domain_step :: "unicode_db \<Rightarrow> ustr \<Rightarrow> ustr set \<Rightarrow> ustr \<Rightarrow> ustr set" where
  "domain_step U content links domain =
     (if prefix (asc ''magnet:?xt='') domain \<or> prefix (asc ''ed2k://'') domain then links
      else if contains (asc ''/s/'') domain then links
      else if list_ex (\<lambda>c. c > 127) domain then
        (if contains domain content
         then update links (findall U (domain_pattern (cjk_only domain)) content)
         else links)
      else update links (findall U (domain_pattern domain) content))"

definition extract_links :: "unicode_db \<Rightarrow> ustr \<Rightarrow> ustr set" where
  "extract_links U content =
     (let links = extract_s_links U content;
          links = foldl (add_matches U content) links link_patterns;
          links = foldl (\<lambda>links (kind, domains). foldl (domain_step U content) links domains)
                    links cloud_domains;
          magnet_matches = findall U magnet_pattern content;
          ed2k_matches = findall U ed2k_pattern content;
          links = update links magnet_matches;
          links = update links ed2k_matches
      in links)"

section \<open>Feeds\<close>

text \<open>
  An entry as \<open>feedparser\<close> hands it over: title and summary when present, and the
  values of its content blocks. One call of \<open>feedparser.parse\<close> either raises (with
  the text of the exception), or returns a feed with \<open>bozo\<close> set (with the text of
  \<open>bozo_exception\<close>), or returns the entries.
\<close>

record entry =
  title :: "ustr option"
  summary :: "ustr option"
  content :: "ustr list option"

datatype parsed = Raises ustr | Bozo ustr | Feed "entry list"

definition entry_text :: "entry \<Rightarrow> ustr" where
  "entry_text e =
     (case title e of Some t \<Rightarrow> t @ [10] | None \<Rightarrow> []) @
     (case summary e of Some s \<Rightarrow> s @ [10] | None \<Rightarrow> []) @
     (case content e of Some cs \<Rightarrow> concat (map (\<lambda>c. c @ [10]) cs) | None \<Rightarrow> [])"

definition closed_signature :: ustr where
  "closed_signature = asc ''Remote end closed connection without response''"

text \<open>
  The calls of \<open>time.sleep\<close>: \<open>Uniform 1 3\<close> is \<open>time.sleep(random.uniform(1, 3))\<close>,
  \<open>Seconds n\<close> is \<open>time.sleep(n)\<close>.
\<close>

datatype sleep = Uniform nat nat | Seconds nat

section \<open>The crawler object and the files\<close>

record crawler =
  all_links_file :: ustr
  rss_feeds :: "ustr list"
  crawled_links :: "ustr set"
  failed_feeds :: "ustr set"

text \<open>
  The files the crawler touches: a map from path to what is stored. The crawler opens
  every file with \<open>encoding='utf-8'\<close>, so what is stored is seen as a sequence of
  characters in their UTF-8 form and, where the file has been damaged or was written by
  something else, of bytes that are not valid UTF-8. Opening with mode \<open>w\<close> replaces what
  is stored, opening with mode \<open>a\<close> writes behind it and creates the file when there is
  none. Opening and writing are taken to succeed.
\<close>

datatype stored = Ch nat | Invalid

type_synonym files = "ustr \<rightharpoonup> stored list"

definition write_file :: "files \<Rightarrow> ustr \<Rightarrow> ustr \<Rightarrow> files" where
  "write_file fs path text = fs(path \<mapsto> map Ch text)"

definition append_file :: "files \<Rightarrow> ustr \<Rightarrow> ustr \<Rightarrow> files" where
  "append_file fs path text =
     fs(path \<mapsto> (case fs path of None \<Rightarrow> [] | Some old \<Rightarrow> old) @ map Ch text)"

text \<open>
  Reading a text file line by line: \<open>\r\n\<close> and \<open>\r\<close> are read as \<open>\n\<close>, and a line
  ends behind its \<open>\n\<close>.
\<close>

fun universal_newlines :: "ustr \<Rightarrow> ustr" where
  "universal_newlines [] = []"
| "universal_newlines [c] = [if c = 13 then 10 else c]"
| "universal_newlines (c # d # s) =
     (if c = 13 \<and> d = 10 then 10 # universal_newlines s
      else if c = 13 then 10 # universal_newlines (d # s)
      else c # universal_newlines (d # s))"

fun split_lines :: "ustr \<Rightarrow> ustr \<Rightarrow> ustr list" where
  "split_lines cur [] = (if cur = [] then [] else [cur])"
| "split_lines cur (c # s) =
     (if c = 10 then (cur @ [c]) # split_lines [] s else split_lines (cur @ [c]) s)"

definition readlines :: "ustr \<Rightarrow> ustr list" where
  "readlines text = split_lines [] (universal_newlines text)"

text \<open>
  The text layer reads a file in chunks of 8192 bytes and decodes each chunk as a whole.
  A chunk that holds an invalid byte raises \<open>UnicodeDecodeError\<close> when it is read, so
  before the error the lines come from the chunks in front of it only: from the
  characters that are complete within those chunks (\<open>decoded_within\<close>, a character of
  the code point \<open>c\<close> taking \<open>utf8_len c\<close> bytes). A carriage return at the end of what
  has been decoded is held back until the next chunk shows whether a line feed follows,
  and a line is delivered once its end has been seen: the last piece without a line end
  waits for the next chunk, which is the one that raises.
\<close>

definition chunk_size :: nat where
  "chunk_size = 8192"

definition utf8_len :: "nat \<Rightarrow> nat" where
  "utf8_len c = (if c < 128 then 1 else if c < 2048 then 2 else if c < 65536 then 3 else 4)"

fun chars :: "stored list \<Rightarrow> ustr" where
  "chars [] = []"
| "chars (Ch c # data) = c # chars data"
| "chars (Invalid # data) = chars data"

fun invalid_at :: "nat \<Rightarrow> stored list \<Rightarrow> nat option" where
  "invalid_at off [] = None"
| "invalid_at off (Ch c # data) = invalid_at (off + utf8_len c) data"
| "invalid_at off (Invalid # data) = Some off"

fun decoded_within :: "nat \<Rightarrow> nat \<Rightarrow> stored list \<Rightarrow> ustr" where
  "decoded_within limit off [] = []"
| "decoded_within limit off (Ch c # data) =
     (if off + utf8_len c \<le> limit then c # decoded_within limit (off + utf8_len c) data else [])"
| "decoded_within limit off (Invalid # data) = []"

definition withhold_cr :: "ustr \<Rightarrow> ustr" where
  "withhold_cr text = (if text \<noteq> [] \<and> last text = 13 then butlast text else text)"

definition complete_lines :: "ustr \<Rightarrow> ustr list" where
  "complete_lines text = filter (\<lambda>line. line \<noteq> [] \<and> last line = 10) (readlines (withhold_cr text))"

section \<open>Loading the store\<close>

text \<open>
  \<open>_load_existing_links\<close>. The whole read is inside one \<open>try\<close>: the exception of a
  chunk that does not decode ends the loop, is printed and is not raised further; the
  lines delivered before it have been added. The result is the crawler and whether the
  error message was printed.
\<close>

definition add_line :: "unicode_db \<Rightarrow> crawler \<Rightarrow> ustr \<Rightarrow> crawler" where
  "add_line U st line =
     (if strip U line \<noteq> [] then st\<lparr>crawled_links := insert (strip U line) (crawled_links st)\<rparr>
      else st)"

definition load_existing_links :: "unicode_db \<Rightarrow> files \<Rightarrow> crawler \<Rightarrow> crawler \<times> bool" where
  "load_existing_links U fs st =
     (case fs (all_links_file st) of
        None \<Rightarrow> (st, False)
      | Some data \<Rightarrow>
          (case invalid_at 0 data of
             None \<Rightarrow> (foldl (add_line U) st (readlines (chars data)), False)
           | Some b \<Rightarrow>
               (foldl (add_line U) st
                  (complete_lines (decoded_within ((b div chunk_size) * chunk_size) 0 data)),
                True)))"

text \<open>
  \<open>__init__\<close>, as far as the crawl uses it: the output file (default
  \<open>all_links.txt\<close>) and the feeds (default none) of the configuration, an empty set of
  links filled from the store, and an empty set of failed feeds.
\<close>

definition init :: "unicode_db \<Rightarrow> files \<Rightarrow> ustr option \<Rightarrow> ustr list option \<Rightarrow> crawler" where
  "init U fs output_file feeds =
     (let st = \<lparr>all_links_file = (case output_file of Some f \<Rightarrow> f | None \<Rightarrow> asc ''all_links.txt''),
                rss_feeds = (case feeds of Some fs \<Rightarrow> fs | None \<Rightarrow> []),
                crawled_links = {}, failed_feeds = {}\<rparr>;
          st = fst (load_existing_links U fs st)
      in st\<lparr>failed_feeds := {}\<rparr>)"

section \<open>Saving\<close>

record datetime =
  year :: nat
  month :: nat
  day :: nat
  hour :: nat
  minute :: nat
  second :: nat

fun digits :: "nat \<Rightarrow> ustr" where
  "digits n = (if n < 10 then [48 + n] else digits (n div 10) @ [48 + n mod 10])"

declare digits.simps [simp del]

definition zpad :: "nat \<Rightarrow> nat \<Rightarrow> ustr" where
  "zpad w n = replicate (w - length (digits n)) 48 @ digits n"

text \<open>\<open>now.strftime("%m%d%H%M.txt")\<close>\<close>

definition get_timestamp_filename :: "datetime \<Rightarrow> ustr" where
  "get_timestamp_filename now =
     zpad 2 (month now) @ zpad 2 (day now) @ zpad 2 (hour now) @ zpad 2 (minute now) @ asc ''.txt''"

text \<open>\<open>now.strftime('%Y-%m-%d %H:%M:%S')\<close>\<close>

definition strftime_seconds :: "datetime \<Rightarrow> ustr" where
  "strftime_seconds now =
     zpad 4 (year now) @ asc ''-'' @ zpad 2 (month now) @ asc ''-'' @ zpad 2 (day now) @ asc '' '' @
     zpad 2 (hour now) @ asc '':'' @ zpad 2 (minute now) @ asc '':'' @ zpad 2 (second now)"

text \<open>
  The two header lines of the snapshot file; the words before the time and before the
  count are Chinese and given by their code points.
\<close>

definition snapshot_header :: "datetime \<Rightarrow> nat \<Rightarrow> ustr" where
  "snapshot_header now n =
     asc ''===== '' @ [29228, 21462, 26102, 38388, 65306] @ strftime_seconds now @ asc '' ====='' @ [10] @
     asc ''===== '' @ [21457, 29616, 38142, 25509, 25968, 65306] @ digits n @ asc '' ====='' @ [10, 10]"

text \<open>
  \<open>_save_links\<close>. \<open>iter\<close> is the order in which Python iterates a set; \<open>t_name\<close> and
  \<open>t_head\<close> are the two readings of the clock, for the file name and for the header.
\<close>

definition save_links ::
  "(ustr set \<Rightarrow> ustr list) \<Rightarrow> datetime \<Rightarrow> datetime \<Rightarrow> ustr set \<Rightarrow> crawler \<times> files \<Rightarrow> crawler \<times> files" where
  "save_links iter t_name t_head new_links w =
     (case w of (st, fs) \<Rightarrow>
        if new_links = {} then (st, fs)
        else
          let timestamp_filename = get_timestamp_filename t_name;
              fs = write_file fs timestamp_filename
                     (snapshot_header t_head (card new_links) @
                      concat (map (\<lambda>link. link @ [10]) (iter new_links)));
              fs = append_file fs (all_links_file st) []
          in foldl (\<lambda>(st, fs) link.
                      (st\<lparr>crawled_links := insert link (crawled_links st)\<rparr>,
                       append_file fs (all_links_file st) (link @ [10])))
               (st, fs) (iter new_links))"

section \<open>Fetching one feed\<close>

text \<open>The check of one extracted entry against the links already crawled.\<close>

definition entry_links :: "unicode_db \<Rightarrow> crawler \<Rightarrow> ustr set \<Rightarrow> entry \<Rightarrow> ustr set" where
  "entry_links U st new_links e =
     new_links \<union> Set.filter (\<lambda>link. link \<notin> crawled_links st) (extract_links U (entry_text e))"

text \<open>
  The loop of \<open>_crawl_single_feed\<close>; \<open>parse k\<close> is what the call of
  \<open>feedparser.parse\<close> in attempt \<open>k\<close> (from 0) does. The result is the returned set, the
  crawler and the sleeps in their order. The set \<open>new_links\<close> is created before the loop and
  returned behind it, so it is carried through the attempts. The entries of a parsed feed
  hold strings, for which the concatenation and the extraction do not raise; the
  \<open>except\<close> branch is therefore entered by \<open>Raises\<close> only. The attempt counter and
  \<open>retry_count\<close> are natural numbers: the counter starts at 0 and only grows.
\<close>

function crawl_loop ::
  "unicode_db \<Rightarrow> (nat \<Rightarrow> parsed) \<Rightarrow> ustr \<Rightarrow> nat \<Rightarrow> nat \<Rightarrow> ustr set \<Rightarrow> crawler \<Rightarrow> sleep list
     \<Rightarrow> ustr set \<times> crawler \<times> sleep list" where
  "crawl_loop U parse feed_url retry_count attempt new_links st sl =
     (if attempt < retry_count then
        (case parse attempt of
           Bozo error_msg \<Rightarrow>
             (let sl = sl @ [Uniform 1 3];
                  sl = (if contains closed_signature error_msg then sl @ [Seconds 5] else sl)
              in if attempt + 1 < retry_count
                 then crawl_loop U parse feed_url retry_count (attempt + 1) new_links st
                        (sl @ [Seconds (2 * (attempt + 1))])
                 else crawl_loop U parse feed_url retry_count (attempt + 1) new_links st sl)
         | Feed entries \<Rightarrow>
             (foldl (entry_links U st) new_links entries,
              st\<lparr>failed_feeds := failed_feeds st - {feed_url}\<rparr>,
              sl @ [Uniform 1 3])
         | Raises error_msg \<Rightarrow>
             (let sl = sl @ [Uniform 1 3];
                  sl = (if contains closed_signature error_msg then sl @ [Seconds 5] else sl)
              in if attempt + 1 < retry_count
                 then crawl_loop U parse feed_url retry_count (attempt + 1) new_links st
                        (sl @ [Seconds (2 * (attempt + 1))])
                 else crawl_loop U parse feed_url retry_count (attempt + 1) new_links
                        (st\<lparr>failed_feeds := insert feed_url (failed_feeds st)\<rparr>) sl))
      else (new_links, st, sl))"
  by pat_completeness auto
termination
  by (relation "measure (\<lambda>(U, parse, feed_url, retry_count, attempt, new_links, st, sl).
        retry_count - attempt)") auto

declare crawl_loop.simps [simp del]

definition crawl_single_feed ::
  "unicode_db \<Rightarrow> (nat \<Rightarrow> parsed) \<Rightarrow> ustr \<Rightarrow> nat \<Rightarrow> crawler \<Rightarrow> ustr set \<times> crawler \<times> sleep list" where
  "crawl_single_feed U parse feed_url retry_count st = crawl_loop U parse feed_url retry_count 0 {} st []"

definition crawl_rss_feed ::
  "unicode_db \<Rightarrow> (nat \<Rightarrow> parsed) \<Rightarrow> ustr \<Rightarrow> crawler \<Rightarrow> ustr set \<times> crawler \<times> sleep list" where
  "crawl_rss_feed U parse feed_url st = crawl_single_feed U parse feed_url 3 st"

section \<open>One cycle\<close>

text \<open>
  What \<open>future.result()\<close> gives: the value the task returned, or the exception that
  left it.
\<close>

datatype 'a result = Returned 'a | Raised ustr

text \<open>
  The pool. The tasks of a cycle read \<open>crawled_links\<close>, which no one writes before the
  pool is done, and each adds or removes only its own feed in \<open>failed_feeds\<close>. The cycle
  is modelled by the schedule in which the workers run the tasks one after the other,
  in the order in which they complete, before the main thread takes the futures from
  \<open>as_completed\<close>. \<open>task\<close> is the function submitted to the pool; \<open>run_tasks\<close> gives
  the futures in the order of completion.
\<close>

fun run_tasks ::
  "(ustr \<Rightarrow> crawler \<Rightarrow> ustr set result \<times> crawler) \<Rightarrow> ustr list \<Rightarrow> crawler
     \<Rightarrow> (ustr \<times> ustr set result) list \<times> crawler" where
  "run_tasks task [] st = ([], st)"
| "run_tasks task (feed_url # rest) st =
     (case task feed_url st of (res, st) \<Rightarrow>
        (case run_tasks task rest st of (futures, st) \<Rightarrow> ((feed_url, res) # futures, st)))"

text \<open>
  The loop over \<open>as_completed\<close>: \<open>future.result()\<close> inside \<open>try\<close>, the returned links
  merged, an exception turned into an entry of \<open>failed_feeds\<close>.
\<close>

fun merge_loop :: "(ustr \<times> ustr set result) list \<Rightarrow> ustr set \<times> crawler \<Rightarrow> ustr set \<times> crawler" where
  "merge_loop [] acc = acc"
| "merge_loop ((feed_url, Returned new_links) # futures) (all_new_links, st) =
     merge_loop futures (all_new_links \<union> new_links, st)"
| "merge_loop ((feed_url, Raised e) # futures) (all_new_links, st) =
     merge_loop futures (all_new_links, st\<lparr>failed_feeds := insert feed_url (failed_feeds st)\<rparr>)"

definition run_pool ::
  "(ustr \<Rightarrow> crawler \<Rightarrow> ustr set result \<times> crawler) \<Rightarrow> ustr list \<Rightarrow> crawler \<Rightarrow> ustr set \<times> crawler" where
  "run_pool task completed st =
     (case run_tasks task completed st of (futures, st) \<Rightarrow> merge_loop futures ({}, st))"

definition crawl_task ::
  "unicode_db \<Rightarrow> (ustr \<Rightarrow> nat \<Rightarrow> parsed) \<Rightarrow> ustr \<Rightarrow> crawler \<Rightarrow> ustr set result \<times> crawler" where
  "crawl_task U parse feed_url st =
     (case crawl_rss_feed U (parse feed_url) feed_url st of (new_links, st, sl) \<Rightarrow> (Returned new_links, st))"

text \<open>
  What a cycle gets from outside: the results of \<open>feedparser.parse\<close> by feed and attempt,
  the order in which the submitted tasks complete, and the readings of the clock.
\<close>

record cycle_env =
  parse_feed :: "ustr \<Rightarrow> nat \<Rightarrow> parsed"
  as_completed :: "ustr list \<Rightarrow> ustr list"
  clock_name :: datetime
  clock_head :: datetime
  clock_log :: datetime

definition failed_section :: "(ustr set \<Rightarrow> ustr list) \<Rightarrow> datetime \<Rightarrow> ustr set \<Rightarrow> ustr" where
  "failed_section iter now failed =
     [10] @ asc ''========== '' @ [29228, 21462, 26102, 38388, 65306] @ strftime_seconds now @
       asc '' =========='' @ [10] @
     [26412, 27425, 22833, 36133, 35746, 38405, 28304, 25968, 37327, 65306] @ digits (card failed) @ [10] @
     concat (map (\<lambda>feed. feed @ [10]) (iter failed))"

text \<open>
  One turn of the loop of \<open>run\<close>: the pool, \<open>_save_links\<close>, and the section of
  \<open>failed_feeds.log\<close>. The result is the set given to \<open>_save_links\<close>, the crawler and the
  files.
\<close>

definition run_cycle ::
  "unicode_db \<Rightarrow> (ustr set \<Rightarrow> ustr list) \<Rightarrow> cycle_env \<Rightarrow> crawler \<times> files \<Rightarrow> ustr set \<times> crawler \<times> files" where
  "run_cycle U iter env w =
     (case w of (st, fs) \<Rightarrow>
        (case run_pool (crawl_task U (parse_feed env)) (as_completed env (rss_feeds st)) st of
           (all_new_links, st) \<Rightarrow>
             (case save_links iter (clock_name env) (clock_head env) all_new_links (st, fs) of
                (st, fs) \<Rightarrow>
                  (all_new_links, st,
                   if failed_feeds st \<noteq> {}
                   then append_file fs (asc ''failed_feeds.log'')
                          (failed_section iter (clock_log env) (failed_feeds st))
                   else fs))))"

text \<open>
  \<open>run(continuous=True)\<close> does not return; its first cycles, one for each element of
  \<open>envs\<close>, with the sets they gave to \<open>_save_links\<close>. \<open>run(continuous=False)\<close> is the case of
  one cycle.
\<close>

fun run_cycles ::
  "unicode_db \<Rightarrow> (ustr set \<Rightarrow> ustr list) \<Rightarrow> cycle_env list \<Rightarrow> crawler \<times> files
     \<Rightarrow> ustr set list \<times> crawler \<times> files" where
  "run_cycles U iter [] w = ([], w)"
| "run_cycles U iter (env # envs) w =
     (case run_cycle U iter env w of (all_new_links, st, fs) \<Rightarrow>
        (case run_cycles U iter envs (st, fs) of (news, w) \<Rightarrow> (all_new_links # news, w)))"

section \<open>Notions used in the properties\<close>

text \<open>
  The first attempt of a fetch that parses, if there is one among the attempts made; the
  links of a list of entries; whether an attempt ended in the \<open>except\<close> branch.
\<close>

fun first_feed :: "parsed list \<Rightarrow> entry list option" where
  "first_feed [] = None"
| "first_feed (Feed entries # rs) = Some entries"
| "first_feed (Raises msg # rs) = first_feed rs"
| "first_feed (Bozo msg # rs) = first_feed rs"

fun raised :: "parsed \<Rightarrow> bool" where
  "raised (Raises msg) = True"
| "raised (Bozo msg) = False"
| "raised (Feed entries) = False"

definition entries_links :: "unicode_db \<Rightarrow> entry list \<Rightarrow> ustr set" where
  "entries_links U entries = (\<Union>e\<in>set entries. extract_links U (entry_text e))"

text \<open>
  The delay schedule in the words of the specification: a jittered sleep of 1 to 3 before
  each attempt; after a failed attempt \<open>N\<close> (counted from 1) the cool-down of 5 when the
  message carries the signature, then the backoff of 2 times \<open>N\<close> unless the attempt was
  the last one; nothing more after a success.
\<close>

fun failure_message :: "parsed \<Rightarrow> ustr option" where
  "failure_message (Raises msg) = Some msg"
| "failure_message (Bozo msg) = Some msg"
| "failure_message (Feed entries) = None"

fun delay_schedule :: "nat \<Rightarrow> nat \<Rightarrow> parsed list \<Rightarrow> sleep list" where
  "delay_schedule retry_count N [] = []"
| "delay_schedule retry_count N (r # rs) =
     Uniform 1 3 #
     (case failure_message r of
        None \<Rightarrow> []
      | Some msg \<Rightarrow>
          (if contains closed_signature msg then [Seconds 5] else []) @
          (if N < retry_count then [Seconds (2 * N)] else []) @
          delay_schedule retry_count (Suc N) rs)"

text \<open>
  What \<open>crawl_rss_feed\<close> (three attempts) returns and what it leaves in \<open>failed_feeds\<close>,
  read off the attempts; and the links a cycle finds in the feeds that parse, before
  they are checked against the links already crawled.
\<close>

definition fetch_links :: "unicode_db \<Rightarrow> ustr set \<Rightarrow> (nat \<Rightarrow> parsed) \<Rightarrow> ustr set" where
  "fetch_links U crawled parse =
     (case first_feed (map parse [0..<3]) of Some entries \<Rightarrow> entries_links U entries - crawled | None \<Rightarrow> {})"

definition after_fetch :: "(nat \<Rightarrow> parsed) \<Rightarrow> ustr \<Rightarrow> ustr set \<Rightarrow> ustr set" where
  "after_fetch parse feed_url failed =
     (case first_feed (map parse [0..<3]) of
        Some entries \<Rightarrow> failed - {feed_url}
      | None \<Rightarrow> if raised (parse 2) then insert feed_url failed else failed)"

definition found_links :: "unicode_db \<Rightarrow> (ustr \<Rightarrow> nat \<Rightarrow> parsed) \<Rightarrow> ustr list \<Rightarrow> ustr set" where
  "found_links U P feeds =
     (\<Union>u\<in>set feeds. case first_feed (map (P u) [0..<3]) of
        Some entries \<Rightarrow> entries_links U entries | None \<Rightarrow> {})"

section \<open>Inputs\<close>

text \<open>
  Concrete inputs for the evaluations: the text of the specification's example and its
  link; a Unicode table that knows the CJK ideographs as alphanumeric, the white space
  beyond ASCII, and the two letters beyond ASCII that fold to an ASCII letter; an
  iteration order for sets; a crawler with one feed; readings of the clock; feeds that
  always have \<open>bozo\<close> set, always raise, or carry the example; a store of three lines; an
  ed2k link whose file name has a line break, as it arises from a title and a summary;
  and five tasks of which the third raises.
\<close>

definition share_text :: ustr where
  "share_text = asc ''share: https://pan.baidu.com/s/1abcXYZ more text''"

definition share_link :: ustr where
  "share_link = asc ''https://pan.baidu.com/s/1abcXYZ''"

definition sample_db :: unicode_db where
  "sample_db = \<lparr>
     uni_alnum = (\<lambda>c. 19968 \<le> c \<and> c \<le> 40869),
     uni_space = (\<lambda>c. c \<in> {133, 160, 5760, 8232, 8233, 8239, 8287, 12288} \<or> (8192 \<le> c \<and> c \<le> 8202)),
     uni_fold = (\<lambda>c. if c = 8490 then 107 else if c = 383 then 115 else c)\<rparr>"

definition iter0 :: "ustr set \<Rightarrow> ustr list" where
  "iter0 = sorted_list_of_set"

definition feed_a :: ustr where
  "feed_a = asc ''http://a.example/rss''"

definition crawler0 :: crawler where
  "crawler0 = \<lparr>all_links_file = asc ''all_links.txt'', rss_feeds = [feed_a],
     crawled_links = {}, failed_feeds = {}\<rparr>"

definition clock0 :: datetime where
  "clock0 = \<lparr>year = 2026, month = 1, day = 2, hour = 3, minute = 4, second = 5\<rparr>"

definition parse_bozo :: "ustr \<Rightarrow> nat \<Rightarrow> parsed" where
  "parse_bozo u k = Bozo (asc ''not well-formed (invalid token)'')"

definition parse_raise :: "ustr \<Rightarrow> nat \<Rightarrow> parsed" where
  "parse_raise u k = Raises (asc ''timed out'')"

definition env_bozo :: cycle_env where
  "env_bozo = \<lparr>parse_feed = parse_bozo, as_completed = rev,
     clock_name = clock0, clock_head = clock0, clock_log = clock0\<rparr>"

definition env_raise :: cycle_env where
  "env_raise = \<lparr>parse_feed = parse_raise, as_completed = rev,
     clock_name = clock0, clock_head = clock0, clock_log = clock0\<rparr>"

definition no_files :: files where
  "no_files = Map.empty"

definition text_abc :: ustr where
  "text_abc = asc ''a'' @ [10] @ asc ''b'' @ [10] @ asc ''c'' @ [10]"

definition store_abc :: files where
  "store_abc = no_files(asc ''all_links.txt'' \<mapsto> map Ch text_abc)"



definition crawler_named_like_snapshot :: crawler where
  "crawler_named_like_snapshot = \<lparr>all_links_file = asc ''01020304.txt'', rss_feeds = [feed_a],
     crawled_links = {}, failed_feeds = {}\<rparr>"

definition store_named_like_snapshot :: files where
  "store_named_like_snapshot = no_files(asc ''01020304.txt'' \<mapsto> map Ch text_abc)"

definition entry_share :: entry where
  "entry_share = \<lparr>title = Some share_text, summary = None, content = None\<rparr>"

definition parse_share :: "ustr \<Rightarrow> nat \<Rightarrow> parsed" where
  "parse_share u k = Feed [entry_share]"

definition env_share :: cycle_env where
  "env_share = \<lparr>parse_feed = parse_share, as_completed = rev,
     clock_name = clock0, clock_head = clock0, clock_log = clock0\<rparr>"

definition share_line :: ustr where
  "share_line = share_text @ [10]"

definition ed2k_head :: ustr where
  "ed2k_head = asc ''ed2k://|file|a''"

definition ed2k_tail :: ustr where
  "ed2k_tail = asc ''b|1|0123456789ABCDEF0123456789ABCDEF|/''"

definition ed2k_link :: ustr where
  "ed2k_link = ed2k_head @ [10] @ ed2k_tail"

definition clock1 :: datetime where
  "clock1 = \<lparr>year = 2026, month = 1, day = 2, hour = 3, minute = 4, second = 59\<rparr>"

definition five_feeds :: "ustr list" where
  "five_feeds = [asc ''f1'', asc ''f2'', asc ''f3'', asc ''f4'', asc ''f5'']"

definition five_tasks :: "ustr \<Rightarrow> crawler \<Rightarrow> ustr set result \<times> crawler" where
  "five_tasks u st = (if u = asc ''f3'' then (Raised (asc ''boom''), st) else (Returned {u @ asc ''/s/x''}, st))"

definition entry_ed2k :: entry where
  "entry_ed2k = \<lparr>title = Some ed2k_head, summary = Some ed2k_tail, content = None\<rparr>"

section \<open>Grammars\<close>

text \<open>The literal a pattern must begin with, when it has one.\<close>

fun first_lit :: "re \<Rightarrow> nat option" where
  "first_lit (Lit c) = Some c"
| "first_lit (Seq r1 r2) = first_lit r1"
| "first_lit (Grp k r) = first_lit r"
| "first_lit (Plus r) = first_lit r"
| "first_lit (Rep n r) = (if n = 0 then None else first_lit r)"
| "first_lit r = None"

text \<open>
  \<open>matches U r w\<close>: the string \<open>w\<close> as a whole is a match of the pattern \<open>r\<close>. This is the
  language of the pattern, defined without the matcher.
\<close>

inductive matches :: "unicode_db \<Rightarrow> re \<Rightarrow> ustr \<Rightarrow> bool" for U :: unicode_db where
  mLit: "casekey U t = casekey U c \<Longrightarrow> matches U (Lit c) [t]"
| mCls: "list_ex (item_match U t) items \<noteq> neg \<Longrightarrow> matches U (Cls neg items) [t]"
| mEps: "matches U Eps []"
| mSeq: "matches U r1 u \<Longrightarrow> matches U r2 v \<Longrightarrow> matches U (Seq r1 r2) (u @ v)"
| mOpt: "matches U r w \<Longrightarrow> matches U (Opt r) w"
| mOptNone: "matches U (Opt r) []"
| mStarNone: "matches U (Star r) []"
| mStar: "matches U r u \<Longrightarrow> matches U (Star r) v \<Longrightarrow> matches U (Star r) (u @ v)"
| mPlus: "matches U r u \<Longrightarrow> matches U (Star r) v \<Longrightarrow> matches U (Plus r) (u @ v)"
| mRepNone: "matches U (Rep 0 r) []"
| mRep: "matches U r u \<Longrightarrow> matches U (Rep n r) v \<Longrightarrow> matches U (Rep (Suc n) r) (u @ v)"
| mGrp: "matches U r w \<Longrightarrow> matches U (Grp k r) w"

text \<open>
  Whether a pattern can match the empty string, and the shape all patterns of the crawler
  have: the first group spans the whole pattern, which cannot match the empty string.
\<close>

fun nullable :: "re \<Rightarrow> bool" where
  "nullable (Lit c) = False"
| "nullable (Cls neg items) = False"
| "nullable Eps = True"
| "nullable (Seq r1 r2) = (nullable r1 \<and> nullable r2)"
| "nullable (Opt r) = True"
| "nullable (Star r) = True"
| "nullable (Plus r) = nullable r"
| "nullable (Rep n r) = (n = 0 \<or> nullable r)"
| "nullable (Grp k r) = nullable r"

fun good_pattern :: "re \<Rightarrow> bool" where
  "good_pattern (Grp k r) = (k = 1 \<and> \<not> nullable r)"
| "good_pattern r = False"

text \<open>
  The pattern the domain pass uses for a label, if it uses one, and the list of all
  grammars of the extraction: the /s/ patterns, the catalogue, the patterns of the domain
  pass and the two wide patterns.
\<close>

definition domain_grammar :: "ustr \<Rightarrow> re option" where
  "domain_grammar domain =
     (if prefix (asc ''magnet:?xt='') domain \<or> prefix (asc ''ed2k://'') domain then None
      else if contains (asc ''/s/'') domain then None
      else if list_ex (\<lambda>c. c > 127) domain then Some (domain_pattern (cjk_only domain))
      else Some (domain_pattern domain))"

definition grammars :: "re list" where
  "grammars = s_link_patterns @ link_patterns @
     concat (map (\<lambda>(kind, domains). concat (map (\<lambda>d. case domain_grammar d of None \<Rightarrow> [] | Some p \<Rightarrow> [p]) domains))
       cloud_domains) @
     [magnet_pattern, ed2k_pattern]"

section \<open>Notions about the store\<close>

text \<open>
  What a file holds (nothing when there is none) and its characters; the links a list
  of lines loads; the
  lines written for a list of links; a link that survives being written as a line and
  stripped when read; a text to which a line can be appended; and what a crawler made
  anew loads from the files.
\<close>

definition file_data :: "files \<Rightarrow> ustr \<Rightarrow> stored list" where
  "file_data fs path = (case fs path of None \<Rightarrow> [] | Some data \<Rightarrow> data)"

definition file_text :: "files \<Rightarrow> ustr \<Rightarrow> ustr" where
  "file_text fs path = chars (file_data fs path)"

definition loaded_lines :: "unicode_db \<Rightarrow> ustr list \<Rightarrow> ustr set" where
  "loaded_lines U ls = {strip U l |l. l \<in> set ls \<and> strip U l \<noteq> []}"

definition link_lines :: "ustr list \<Rightarrow> ustr" where
  "link_lines ls = concat (map (\<lambda>link. link @ [10]) ls)"

definition line_safe :: "unicode_db \<Rightarrow> ustr \<Rightarrow> bool" where
  "line_safe U l = (l \<noteq> [] \<and> 10 \<notin> set l \<and> 13 \<notin> set l
     \<and> \<not> is_space U (hd l) \<and> \<not> is_space U (last l))"

definition newline_ended :: "ustr \<Rightarrow> bool" where
  "newline_ended text = (text = [] \<or> last text = 10)"

definition reload :: "unicode_db \<Rightarrow> files \<Rightarrow> crawler \<Rightarrow> ustr set" where
  "reload U fs st = crawled_links (fst (load_existing_links U fs (st\<lparr>crawled_links := {}\<rparr>)))"

section \<open>The fetch of one feed\<close>

lemma foldl_entry_links:
  "foldl (entry_links U st) new_links entries = new_links \<union> (entries_links U entries - crawled_links st)"
  by (induction entries arbitrary: new_links) (auto simp: entry_links_def entries_links_def)

lemma crawl_loop_result:
  "(fst (crawl_loop U parse feed_url retry_count attempt new_links st sl),
    fst (snd (crawl_loop U parse feed_url retry_count attempt new_links st sl))) =
     (case first_feed (map parse [attempt..<retry_count]) of
        Some entries \<Rightarrow>
          (new_links \<union> (entries_links U entries - crawled_links st),
           st\<lparr>failed_feeds := failed_feeds st - {feed_url}\<rparr>)
      | None \<Rightarrow>
          (new_links,
           if attempt < retry_count \<and> raised (parse (retry_count - 1))
           then st\<lparr>failed_feeds := insert feed_url (failed_feeds st)\<rparr> else st))"
proof (induction U parse feed_url retry_count attempt new_links st sl rule: crawl_loop.induct)
  case (1 U parse feed_url retry_count attempt new_links st sl)
  show ?case
  proof (cases "attempt < retry_count")
    case False
    then show ?thesis by (simp add: crawl_loop.simps)
  next
    case True
    then have up: "[attempt..<retry_count] = attempt # [Suc attempt..<retry_count]"
      by (simp add: upt_conv_Cons)
    show ?thesis
    proof (cases "parse attempt")
      case (Raises msg)
      show ?thesis
      proof (cases "Suc attempt < retry_count")
        case more: True
        with True up 1 Raises show ?thesis
          by (subst (1 2) crawl_loop.simps) (simp add: Let_def)
      next
        case last: False
        then have e: "[Suc attempt..<retry_count] = []" and r: "retry_count - 1 = attempt"
          using True by auto
        show ?thesis using True last Raises up e r 1
          by (subst (1 2) crawl_loop.simps) (simp add: Let_def)
      qed
    next
      case (Bozo msg)
      show ?thesis
      proof (cases "Suc attempt < retry_count")
        case more: True
        with True up 1 Bozo show ?thesis
          by (subst (1 2) crawl_loop.simps) (simp add: Let_def)
      next
        case last: False
        then have e: "[Suc attempt..<retry_count] = []" and r: "retry_count - 1 = attempt"
          using True by auto
        show ?thesis using True last Bozo up e r 1
          by (subst (1 2) crawl_loop.simps) (simp add: Let_def)
      qed
    next
      case (Feed entries)
      with True up show ?thesis
        by (subst (1 2) crawl_loop.simps) (simp add: foldl_entry_links)
    qed
  qed
qed

lemma crawl_loop_sleeps:
  "snd (snd (crawl_loop U parse feed_url retry_count attempt new_links st sl)) =
     sl @ delay_schedule retry_count (Suc attempt) (map parse [attempt..<retry_count])"
proof (induction U parse feed_url retry_count attempt new_links st sl rule: crawl_loop.induct)
  case (1 U parse feed_url retry_count attempt new_links st sl)
  show ?case
  proof (cases "attempt < retry_count")
    case False
    then show ?thesis by (simp add: crawl_loop.simps)
  next
    case True
    then have up: "[attempt..<retry_count] = attempt # [Suc attempt..<retry_count]"
      by (simp add: upt_conv_Cons)
    show ?thesis
    proof (cases "parse attempt")
      case (Raises msg)
      with True up 1 show ?thesis
        by (subst crawl_loop.simps) (simp add: Let_def)
    next
      case (Bozo msg)
      with True up 1 show ?thesis
        by (subst crawl_loop.simps) (simp add: Let_def)
    next
      case (Feed entries)
      with True up show ?thesis
        by (subst crawl_loop.simps) simp
    qed
  qed
qed

text \<open>
  C5. The sleeps of a fetch, in their order, are the delay schedule of the specification
  applied to what the attempts did: before each attempt a sleep drawn from 1 to 3; after
  a failed attempt \<open>N\<close> (from 1) a sleep of 5 when the message contains "Remote end closed
  connection without response", and then a sleep of 2 times \<open>N\<close>, except after the last
  attempt, which is followed by no backoff. This holds for failures of both kinds and for
  every number of attempts.
\<close>

theorem C5_delay_schedule:
  "snd (snd (crawl_single_feed U parse feed_url retry_count st)) =
     delay_schedule retry_count 1 (map parse [0..<retry_count])"
  by (simp add: crawl_single_feed_def crawl_loop_sleeps)

lemma crawl_rss_feed_result:
  "fst (crawl_rss_feed U parse feed_url st) = fetch_links U (crawled_links st) parse"
  "fst (snd (crawl_rss_feed U parse feed_url st)) =
     st\<lparr>failed_feeds := after_fetch parse feed_url (failed_feeds st)\<rparr>"
  using crawl_loop_result [of U parse feed_url 3 0 "{}" st "[]"]
  by (auto simp: crawl_rss_feed_def crawl_single_feed_def fetch_links_def after_fetch_def
      split: option.splits)

section \<open>The pool and the merge loop\<close>

lemma crawl_task_result:
  "crawl_task U P feed_url st =
     (Returned (fetch_links U (crawled_links st) (P feed_url)),
      st\<lparr>failed_feeds := after_fetch (P feed_url) feed_url (failed_feeds st)\<rparr>)"
proof -
  obtain new_links st' sl where c: "crawl_rss_feed U (P feed_url) feed_url st = (new_links, st', sl)"
    by (cases "crawl_rss_feed U (P feed_url) feed_url st")
  from crawl_rss_feed_result [of U "P feed_url" feed_url st] c
  have "new_links = fetch_links U (crawled_links st) (P feed_url)"
    and "st' = st\<lparr>failed_feeds := after_fetch (P feed_url) feed_url (failed_feeds st)\<rparr>"
    by simp_all
  with c show ?thesis by (simp add: crawl_task_def)
qed

lemma run_tasks_crawl:
  "run_tasks (crawl_task U P) completed st =
     (map (\<lambda>u. (u, Returned (fetch_links U (crawled_links st) (P u)))) completed,
      st\<lparr>failed_feeds := foldl (\<lambda>F u. after_fetch (P u) u F) (failed_feeds st) completed\<rparr>)"
  by (induction completed arbitrary: st) (simp_all add: crawl_task_result)

lemma futures_returned_Cons:
  "\<Union>{new_links. \<exists>u. (u, Returned new_links) \<in> set ((feed_url, Returned x) # futures)}
     = x \<union> \<Union>{new_links. \<exists>u. (u, Returned new_links) \<in> set futures}"
  "\<Union>{new_links. \<exists>u. (u, Returned new_links) \<in> set ((feed_url, Raised e) # futures)}
     = \<Union>{new_links. \<exists>u. (u, Returned new_links) \<in> set futures}"
  by auto

lemma futures_raised_Cons:
  "{u. \<exists>e. (u, Raised e) \<in> set ((feed_url, Returned x) # futures)}
     = {u. \<exists>e. (u, Raised e) \<in> set futures}"
  "{u. \<exists>e'. (u, Raised e') \<in> set ((feed_url, Raised e) # futures)}
     = insert feed_url {u. \<exists>e. (u, Raised e) \<in> set futures}"
  by auto

lemma merge_loop_result:
  "merge_loop futures (all_new_links, st) =
     (all_new_links \<union> \<Union>{new_links. \<exists>u. (u, Returned new_links) \<in> set futures},
      st\<lparr>failed_feeds := failed_feeds st \<union> {u. \<exists>e. (u, Raised e) \<in> set futures}\<rparr>)"
proof (induction futures arbitrary: all_new_links st)
  case Nil
  show ?case by simp
next
  case (Cons f futures)
  obtain feed_url res where f: "f = (feed_url, res)" by (cases f)
  show ?case
  proof (cases res)
    case (Returned x)
    show ?thesis
      unfolding f Returned merge_loop.simps Cons futures_returned_Cons futures_raised_Cons
      by (simp add: Un_assoc)
  next
    case (Raised e)
    show ?thesis
      unfolding f Raised merge_loop.simps Cons futures_returned_Cons futures_raised_Cons
      by simp
  qed
qed

lemma run_tasks_futures: "map fst (fst (run_tasks task completed st)) = completed"
proof (induction completed arbitrary: st)
  case Nil
  show ?case by simp
next
  case (Cons u completed)
  obtain res st1 where t: "task u st = (res, st1)" by (cases "task u st")
  obtain futures st2 where r: "run_tasks task completed st1 = (futures, st2)"
    by (cases "run_tasks task completed st1")
  from Cons [of st1] r have "map fst futures = completed" by simp
  with t r show ?case by simp
qed

text \<open>
  C9. Whatever function the pool runs and in whatever order its tasks complete, the
  merge loop ends, every task has its future, the merged set is the union of the sets
  of the futures that returned, and the sources added to \<open>failed_feeds\<close> are those
  whose future raised: an exception that leaves one task becomes the failure record of
  that source alone and takes nothing from the results of the other tasks.
\<close>

theorem C9_merge_isolates_failures:
  "run_pool task completed st =
     (case run_tasks task completed st of (futures, st') \<Rightarrow>
        (\<Union>{new_links. \<exists>u. (u, Returned new_links) \<in> set futures},
         st'\<lparr>failed_feeds := failed_feeds st' \<union> {u. \<exists>e. (u, Raised e) \<in> set futures}\<rparr>))
   \<and> map fst (fst (run_tasks task completed st)) = completed"
  by (simp add: run_pool_def merge_loop_result run_tasks_futures split: prod.splits)

text \<open>The pool of a cycle, whose tasks are fetches and all return.\<close>

lemma returned_futures:
  "{u. \<exists>e. (u, Raised e) \<in> set (map (\<lambda>u. (u, Returned (f u))) xs)} = {}"
  "\<Union>{new_links. \<exists>u. (u, Returned new_links) \<in> set (map (\<lambda>u. (u, Returned (f u))) xs)}
     = (\<Union>u\<in>set xs. f u)"
  by auto

lemma run_pool_crawl:
  "run_pool (crawl_task U P) completed st =
     (\<Union>u\<in>set completed. fetch_links U (crawled_links st) (P u),
      st\<lparr>failed_feeds := foldl (\<lambda>F u. after_fetch (P u) u F) (failed_feeds st) completed\<rparr>)"
  by (simp add: run_pool_def run_tasks_crawl merge_loop_result returned_futures del: set_map)

section \<open>Saving, and a cycle as a whole\<close>

lemma append_file_twice:
  "append_file (append_file fs path a) path b = append_file fs path (a @ b)"
  by (simp add: append_file_def)

lemma save_loop:
  "foldl (\<lambda>(st, fs) link.
            (st\<lparr>crawled_links := insert link (crawled_links st)\<rparr>,
             append_file fs (all_links_file st) (link @ [10])))
     (st, fs) ls =
   (st\<lparr>crawled_links := crawled_links st \<union> set ls\<rparr>,
    if ls = [] then fs else append_file fs (all_links_file st) (concat (map (\<lambda>link. link @ [10]) ls)))"
proof (induction ls arbitrary: st fs)
  case Nil
  show ?case by simp
next
  case (Cons l ls)
  show ?case by (simp add: Cons append_file_twice)
qed

lemma save_links_eq:
  "save_links iter t_name t_head new_links (st, fs) =
     (if new_links = {} then (st, fs)
      else (st\<lparr>crawled_links := crawled_links st \<union> set (iter new_links)\<rparr>,
            append_file
              (write_file fs (get_timestamp_filename t_name)
                 (snapshot_header t_head (card new_links) @
                  concat (map (\<lambda>link. link @ [10]) (iter new_links))))
              (all_links_file st) (concat (map (\<lambda>link. link @ [10]) (iter new_links)))))"
  by (auto simp: save_links_def Let_def save_loop append_file_twice)

lemma finite_add_match: "finite links \<Longrightarrow> finite (add_match links m)"
  by (cases m) (auto split: option.splits)

lemma finite_foldl_add_match: "finite links \<Longrightarrow> finite (foldl add_match links ms)"
  by (induction ms arbitrary: links) (simp_all add: finite_add_match)

lemma finite_add_matches: "finite links \<Longrightarrow> finite (add_matches U txt links pattern)"
  by (simp add: add_matches_def finite_foldl_add_match)

lemma finite_foldl_add_matches:
  "finite links \<Longrightarrow> finite (foldl (add_matches U txt) links patterns)"
  by (induction patterns arbitrary: links) (simp_all add: finite_add_matches)

lemma finite_update: "finite links \<Longrightarrow> finite (update links ms)"
  by (simp add: update_def)

lemma finite_domain_step: "finite links \<Longrightarrow> finite (domain_step U txt links domain)"
  by (simp add: domain_step_def finite_update)

lemma finite_foldl_domain_step:
  "finite links \<Longrightarrow> finite (foldl (domain_step U txt) links ds)"
proof (induction ds arbitrary: links)
  case Nil
  then show ?case by simp
next
  case (Cons d ds)
  from Cons.prems have "finite (domain_step U txt links d)" by (rule finite_domain_step)
  then have "finite (foldl (domain_step U txt) (domain_step U txt links d) ds)" by (rule Cons.IH)
  then show ?case by simp
qed

lemma finite_foldl_domains:
  "finite links \<Longrightarrow>
   finite (foldl (\<lambda>links (kind, domains). foldl (domain_step U txt) links domains) links ds)"
proof (induction ds arbitrary: links)
  case Nil
  then show ?case by simp
next
  case (Cons d ds)
  obtain kind domains where d: "d = (kind, domains)" by (cases d)
  from Cons.prems have "finite (foldl (domain_step U txt) links domains)"
    by (rule finite_foldl_domain_step)
  then have "finite (foldl (\<lambda>links (kind, domains). foldl (domain_step U txt) links domains)
      (foldl (domain_step U txt) links domains) ds)" by (rule Cons.IH)
  then show ?case by (simp add: d)
qed

lemma finite_extract_s_links: "finite (extract_s_links U txt)"
  by (simp add: extract_s_links_def finite_foldl_add_matches)

lemma finite_extract_links: "finite (extract_links U txt)"
  by (simp add: extract_links_def Let_def finite_update finite_foldl_domains
      finite_foldl_add_matches finite_extract_s_links)

lemma finite_entries_links: "finite (entries_links U entries)"
  by (simp add: entries_links_def finite_extract_links)

lemma finite_found_links: "finite (found_links U P feeds)"
  by (auto simp: found_links_def finite_entries_links split: option.splits)

lemma fetched_is_found:
  "(\<Union>u\<in>set feeds. fetch_links U crawled (P u)) = found_links U P feeds - crawled"
  by (auto simp: fetch_links_def found_links_def split: option.splits)

lemma found_links_cong: "set xs = set ys \<Longrightarrow> found_links U P xs = found_links U P ys"
  by (simp add: found_links_def)

lemma run_cycle_new:
  "fst (run_cycle U iter env (st, fs)) =
     found_links U (parse_feed env) (as_completed env (rss_feeds st)) - crawled_links st"
  by (simp add: run_cycle_def run_pool_crawl save_links_eq fetched_is_found)

lemma run_cycle_state:
  "fst (snd (run_cycle U iter env (st, fs))) =
     st\<lparr>crawled_links := crawled_links st \<union>
           (if fst (run_cycle U iter env (st, fs)) = {} then {}
            else set (iter (fst (run_cycle U iter env (st, fs))))),
        failed_feeds := foldl (\<lambda>F u. after_fetch (parse_feed env u) u F) (failed_feeds st)
           (as_completed env (rss_feeds st))\<rparr>"
  by (simp add: run_cycle_def run_pool_crawl save_links_eq fetched_is_found)

lemma run_cycle_files:
  "snd (snd (run_cycle U iter env (st, fs))) =
     (let new = fst (run_cycle U iter env (st, fs));
          failed = failed_feeds (fst (snd (run_cycle U iter env (st, fs))));
          fs1 = (if new = {} then fs
                 else append_file
                        (write_file fs (get_timestamp_filename (clock_name env))
                           (snapshot_header (clock_head env) (card new) @
                            concat (map (\<lambda>link. link @ [10]) (iter new))))
                        (all_links_file st) (concat (map (\<lambda>link. link @ [10]) (iter new))))
      in if failed \<noteq> {}
         then append_file fs1 (asc ''failed_feeds.log'') (failed_section iter (clock_log env) failed)
         else fs1)"
  by (simp add: run_cycle_def run_pool_crawl save_links_eq fetched_is_found Let_def)

section \<open>A stored link is not new again\<close>

lemma run_cycle_disjoint: "fst (run_cycle U iter env (st, fs)) \<inter> crawled_links st = {}"
  by (auto simp: run_cycle_new)

lemma finite_run_cycle_new: "finite (fst (run_cycle U iter env (st, fs)))"
  by (simp add: run_cycle_new finite_found_links)

lemma run_cycle_crawled:
  assumes "\<forall>S. finite S \<longrightarrow> set (iter S) = S"
  shows "crawled_links (fst (snd (run_cycle U iter env (st, fs)))) =
           crawled_links st \<union> fst (run_cycle U iter env (st, fs))"
proof -
  let ?new = "fst (run_cycle U iter env (st, fs))"
  have e: "set (iter ?new) = ?new"
    using assms finite_run_cycle_new [of U iter env st fs] by blast
  have "crawled_links (fst (snd (run_cycle U iter env (st, fs)))) =
      crawled_links st \<union> (if ?new = {} then {} else set (iter ?new))"
    by (subst run_cycle_state) simp
  also have "\<dots> = crawled_links st \<union> ?new" unfolding e by simp
  finally show ?thesis .
qed

lemma run_cycle_feeds: "rss_feeds (fst (snd (run_cycle U iter env (st, fs)))) = rss_feeds st"
  by (simp add: run_cycle_state)

lemma run_cycles_Cons:
  "fst (run_cycles U iter (env # envs) (st, fs)) =
     fst (run_cycle U iter env (st, fs)) #
     fst (run_cycles U iter envs (fst (snd (run_cycle U iter env (st, fs))),
                                  snd (snd (run_cycle U iter env (st, fs)))))"
  by (simp split: prod.splits)

lemma run_cycles_length: "length (fst (run_cycles U iter envs w)) = length envs"
proof (induction envs arbitrary: w)
  case Nil
  show ?case by simp
next
  case (Cons env envs)
  obtain st fs where w: "w = (st, fs)" by (cases w)
  show ?case unfolding w run_cycles_Cons by (simp add: Cons)
qed

lemma run_cycles_stored:
  assumes "\<forall>S. finite S \<longrightarrow> set (iter S) = S"
  shows "new \<in> set (fst (run_cycles U iter envs (st, fs))) \<Longrightarrow> new \<inter> crawled_links st = {}"
proof (induction envs arbitrary: st fs)
  case Nil
  then show ?case by simp
next
  case (Cons env envs)
  let ?st1 = "fst (snd (run_cycle U iter env (st, fs)))"
  let ?fs1 = "snd (snd (run_cycle U iter env (st, fs)))"
  from Cons.prems have "new = fst (run_cycle U iter env (st, fs))
      \<or> new \<in> set (fst (run_cycles U iter envs (?st1, ?fs1)))"
    unfolding run_cycles_Cons by simp
  then show ?case
  proof
    assume "new = fst (run_cycle U iter env (st, fs))"
    then show ?thesis by (simp add: run_cycle_disjoint)
  next
    assume "new \<in> set (fst (run_cycles U iter envs (?st1, ?fs1)))"
    then have "new \<inter> crawled_links ?st1 = {}" by (rule Cons.IH)
    then show ?thesis unfolding run_cycle_crawled [OF assms] by blast
  qed
qed

lemma run_cycles_later:
  assumes "\<forall>S. finite S \<longrightarrow> set (iter S) = S"
  shows "i < j \<Longrightarrow> j < length envs \<Longrightarrow>
     fst (run_cycles U iter envs (st, fs)) ! i \<inter> fst (run_cycles U iter envs (st, fs)) ! j = {}"
proof (induction envs arbitrary: st fs i j)
  case Nil
  then show ?case by simp
next
  case (Cons env envs)
  let ?st1 = "fst (snd (run_cycle U iter env (st, fs)))"
  let ?fs1 = "snd (snd (run_cycle U iter env (st, fs)))"
  let ?rest = "fst (run_cycles U iter envs (?st1, ?fs1))"
  obtain j' where j: "j = Suc j'" using Cons.prems(1) by (cases j) auto
  with Cons.prems have j': "j' < length envs" by simp
  show ?case
  proof (cases i)
    case 0
    have "?rest ! j' \<in> set ?rest" using j' by (simp add: run_cycles_length)
    then have "?rest ! j' \<inter> crawled_links ?st1 = {}" by (rule run_cycles_stored [OF assms])
    then have "?rest ! j' \<inter> fst (run_cycle U iter env (st, fs)) = {}"
      unfolding run_cycle_crawled [OF assms] by blast
    then show ?thesis unfolding run_cycles_Cons 0 j by (simp add: Int_commute)
  next
    case (Suc i')
    with Cons.prems j have "i' < j'" by simp
    then have "?rest ! i' \<inter> ?rest ! j' = {}" using j' by (rule Cons.IH)
    then show ?thesis unfolding run_cycles_Cons Suc j by simp
  qed
qed

lemma two_cycles:
  assumes iter: "\<forall>S. finite S \<longrightarrow> set (iter S) = S"
    and c1: "set (as_completed env1 (rss_feeds st)) = set (rss_feeds st)"
    and c2: "set (as_completed env2 (rss_feeds st)) = set (rss_feeds st)"
    and same: "parse_feed env2 = parse_feed env1"
  shows "fst (run_cycles U iter [env1, env2] (st, fs)) =
     [found_links U (parse_feed env1) (rss_feeds st) - crawled_links st, {}]"
proof -
  let ?found = "found_links U (parse_feed env1) (rss_feeds st)"
  let ?st1 = "fst (snd (run_cycle U iter env1 (st, fs)))"
  let ?fs1 = "snd (snd (run_cycle U iter env1 (st, fs)))"
  have n1: "fst (run_cycle U iter env1 (st, fs)) = ?found - crawled_links st"
    unfolding run_cycle_new by (simp add: found_links_cong [OF c1])
  have cr: "crawled_links ?st1 = crawled_links st \<union> (?found - crawled_links st)"
    using run_cycle_crawled [OF iter, of U env1 st fs] n1 by simp
  have "fst (run_cycle U iter env2 (?st1, ?fs1)) = ?found - crawled_links ?st1"
    unfolding run_cycle_new run_cycle_feeds same by (simp add: found_links_cong [OF c2])
  also have "\<dots> = {}" unfolding cr by blast
  finally have n2: "fst (run_cycle U iter env2 (?st1, ?fs1)) = {}" .
  show ?thesis unfolding run_cycles_Cons n1 [symmetric]
    using n2 by simp
qed

text \<open>
  C2. Let the iteration order enumerate every finite set. In any run of cycles, no set of
  new links holds a link that was in \<open>crawled_links\<close> when the run began, and the sets of
  new links of two different cycles share no link: a link that is in the seen-set (loaded
  at the start or recorded since) is not emitted as new by a later cycle. When two cycles
  that complete all their feeds see the same results of parsing, the number of new links
  of the first is the number of distinct links found that were not stored yet, and that
  of the second is zero.
\<close>

theorem C2_no_link_emitted_twice:
  assumes "\<forall>S. finite S \<longrightarrow> set (iter S) = S"
  shows "(\<forall>new \<in> set (fst (run_cycles U iter envs (st, fs))). new \<inter> crawled_links st = {})
     \<and> (\<forall>i j. i < j \<and> j < length envs \<longrightarrow>
           fst (run_cycles U iter envs (st, fs)) ! i \<inter> fst (run_cycles U iter envs (st, fs)) ! j = {})
     \<and> (set (as_completed env1 (rss_feeds st)) = set (rss_feeds st)
          \<and> set (as_completed env2 (rss_feeds st)) = set (rss_feeds st)
          \<and> parse_feed env2 = parse_feed env1 \<longrightarrow>
            card (fst (run_cycles U iter [env1, env2] (st, fs)) ! 0)
              = card (found_links U (parse_feed env1) (rss_feeds st) - crawled_links st)
          \<and> card (fst (run_cycles U iter [env1, env2] (st, fs)) ! 1) = 0)"
proof (intro conjI ballI allI impI)
  fix new assume "new \<in> set (fst (run_cycles U iter envs (st, fs)))"
  then show "new \<inter> crawled_links st = {}" by (rule run_cycles_stored [OF assms])
next
  fix i j assume "i < j \<and> j < length envs"
  then show "fst (run_cycles U iter envs (st, fs)) ! i \<inter> fst (run_cycles U iter envs (st, fs)) ! j = {}"
    using run_cycles_later [OF assms] by blast
next
  assume h: "set (as_completed env1 (rss_feeds st)) = set (rss_feeds st)
          \<and> set (as_completed env2 (rss_feeds st)) = set (rss_feeds st)
          \<and> parse_feed env2 = parse_feed env1"
  then show "card (fst (run_cycles U iter [env1, env2] (st, fs)) ! 0)
              = card (found_links U (parse_feed env1) (rss_feeds st) - crawled_links st)"
    using two_cycles [OF assms, of env1 st env2 U fs] by simp
next
  assume h: "set (as_completed env1 (rss_feeds st)) = set (rss_feeds st)
          \<and> set (as_completed env2 (rss_feeds st)) = set (rss_feeds st)
          \<and> parse_feed env2 = parse_feed env1"
  then show "card (fst (run_cycles U iter [env1, env2] (st, fs)) ! 1) = 0"
    using two_cycles [OF assms, of env1 st env2 U fs] by simp
qed

section \<open>Fetches that fail\<close>

lemma three_attempts: "map parse [0..<3] = [parse 0, parse 1, parse 2]"
  by (simp add: upt_rec numeral_3_eq_3 numeral_2_eq_2)

lemma after_fetch_bozo: "after_fetch (parse_bozo u) u F = F"
  by (simp add: after_fetch_def three_attempts parse_bozo_def)

lemma after_fetch_raise: "after_fetch (parse_raise u) u F = insert u F"
  by (simp add: after_fetch_def three_attempts parse_raise_def)

lemma fetch_links_bozo: "fetch_links U crawled (parse_bozo u) = {}"
  by (simp add: fetch_links_def three_attempts parse_bozo_def)

lemma fetch_links_raise: "fetch_links U crawled (parse_raise u) = {}"
  by (simp add: fetch_links_def three_attempts parse_raise_def)

lemma found_links_bozo: "found_links U parse_bozo feeds = {}"
  by (simp add: found_links_def three_attempts parse_bozo_def)

lemma found_links_raise: "found_links U parse_raise feeds = {}"
  by (simp add: found_links_def three_attempts parse_raise_def)

lemma cycle_bozo: "run_cycle U iter env_bozo (crawler0, fs) = ({}, crawler0, fs)"
proof -
  have n: "fst (run_cycle U iter env_bozo (crawler0, fs)) = {}"
    by (simp add: run_cycle_new env_bozo_def found_links_bozo)
  have s: "fst (snd (run_cycle U iter env_bozo (crawler0, fs))) = crawler0"
    unfolding run_cycle_state n by (simp add: env_bozo_def crawler0_def after_fetch_bozo)
  have f: "snd (snd (run_cycle U iter env_bozo (crawler0, fs))) = fs"
    unfolding run_cycle_files s n by (simp add: crawler0_def)
  show ?thesis by (simp add: prod_eq_iff n s f)
qed

text \<open>
  C1. A feed whose three attempts all come back with \<open>bozo\<close> set: the fetch returns the
  empty set after the sleeps of three attempts, but the feed is not put into
  \<open>failed_feeds\<close>, and the cycle writes no section to the failure log (it writes no file at
  all). The same feed failing by an exception in all attempts is put into
  \<open>failed_feeds\<close>: the branch for \<open>bozo\<close> lacks the step that the \<open>except\<close> branch has.
\<close>

theorem C1_parse_failures_not_recorded:
  "crawl_rss_feed U (parse_bozo feed_a) feed_a crawler0 =
     ({}, crawler0, [Uniform 1 3, Seconds 2, Uniform 1 3, Seconds 4, Uniform 1 3])
   \<and> run_cycle U iter env_bozo (crawler0, Map.empty) = ({}, crawler0, Map.empty)
   \<and> failed_feeds (fst (snd (crawl_rss_feed U (parse_raise feed_a) feed_a crawler0))) = {feed_a}"
proof -
  have 1: "fst (crawl_rss_feed U (parse_bozo feed_a) feed_a crawler0) = {}"
    by (simp add: crawl_rss_feed_result fetch_links_bozo)
  have 2: "fst (snd (crawl_rss_feed U (parse_bozo feed_a) feed_a crawler0)) = crawler0"
    by (simp add: crawl_rss_feed_result after_fetch_bozo crawler0_def)
  have 3: "snd (snd (crawl_rss_feed U (parse_bozo feed_a) feed_a crawler0)) =
      [Uniform 1 3, Seconds 2, Uniform 1 3, Seconds 4, Uniform 1 3]"
    unfolding crawl_rss_feed_def crawl_single_feed_def crawl_loop_sleeps three_attempts
    by (simp add: parse_bozo_def closed_signature_def asc_def ch_def numeral_2_eq_2)
  have 4: "failed_feeds (fst (snd (crawl_rss_feed U (parse_raise feed_a) feed_a crawler0))) = {feed_a}"
    by (simp add: crawl_rss_feed_result after_fetch_raise crawler0_def)
  have "crawl_rss_feed U (parse_bozo feed_a) feed_a crawler0 =
     ({}, crawler0, [Uniform 1 3, Seconds 2, Uniform 1 3, Seconds 4, Uniform 1 3])"
    by (simp add: prod_eq_iff 1 2 3)
  with 4 cycle_bozo show ?thesis by simp
qed

lemma cycle_raise_state:
  "fst (snd (run_cycle U iter env_raise (crawler0, fs))) = crawler0\<lparr>failed_feeds := {feed_a}\<rparr>"
proof -
  have n: "fst (run_cycle U iter env_raise (crawler0, fs)) = {}"
    by (simp add: run_cycle_new env_raise_def found_links_raise)
  show ?thesis
    unfolding run_cycle_state n by (simp add: env_raise_def crawler0_def after_fetch_raise)
qed

lemma cycle_bozo_state:
  "fst (snd (run_cycle U iter env_bozo (crawler0\<lparr>failed_feeds := F\<rparr>, fs))) = crawler0\<lparr>failed_feeds := F\<rparr>"
proof -
  have n: "fst (run_cycle U iter env_bozo (crawler0\<lparr>failed_feeds := F\<rparr>, fs)) = {}"
    by (simp add: run_cycle_new env_bozo_def found_links_bozo)
  show ?thesis
    unfolding run_cycle_state n by (simp add: env_bozo_def crawler0_def after_fetch_bozo)
qed

text \<open>
  C3. A first cycle in which the feed raises in all attempts, then a second cycle in
  which all its attempts have \<open>bozo\<close> set. The second cycle, run on the crawler as it was
  made, leaves \<open>failed_feeds\<close> empty although the feed has failed in it; run after the
  first cycle it ends with the feed in \<open>failed_feeds\<close>, and only because the record of the
  first cycle is still there. What the set holds after a cycle is therefore not computed
  from that cycle alone: the branch for \<open>bozo\<close> neither adds the feed nor removes it.
\<close>

theorem C3_failed_set_not_recomputed:
  "failed_feeds (fst (snd (run_cycle sample_db iter0 env_bozo
       (fst (snd (run_cycle sample_db iter0 env_raise (crawler0, Map.empty))),
        snd (snd (run_cycle sample_db iter0 env_raise (crawler0, Map.empty))))))) = {feed_a}
   \<and> failed_feeds (fst (snd (run_cycle sample_db iter0 env_bozo (crawler0, Map.empty)))) = {}"
  unfolding cycle_raise_state cycle_bozo_state cycle_bozo
  by (simp add: crawler0_def)

section \<open>Scanning past positions where a pattern cannot begin\<close>

lemma rep_iter_Nil: "f x = [] \<Longrightarrow> 0 < n \<Longrightarrow> rep_iter n f x = []"
  by (cases n) simp_all

lemma first_lit_mismatch:
  "first_lit r = Some c \<Longrightarrow> casekey U t \<noteq> casekey U c \<Longrightarrow> re_match U r (t # s, g) = []"
proof (induction r arbitrary: g)
  case (Rep n r)
  then show ?case by (auto split: if_splits intro: rep_iter_Nil)
qed auto

lemma first_lit_empty: "first_lit r = Some c \<Longrightarrow> re_match U r ([], g) = []"
proof (induction r arbitrary: g)
  case (Rep n r)
  then show ?case by (auto split: if_splits intro: rep_iter_Nil)
qed auto

lemma findall_skip:
  "first_lit r = Some c \<Longrightarrow> casekey U t \<noteq> casekey U c \<Longrightarrow> findall U r (t # s) = findall U r s"
  by (subst findall.simps) (simp add: first_lit_mismatch)

lemma findall_end: "first_lit r = Some c \<Longrightarrow> findall U r [] = []"
  by (subst findall.simps) (simp add: first_lit_empty)

lemma findall_try:
  "first_lit r = Some c \<Longrightarrow> casekey U t = casekey U c \<Longrightarrow>
   findall U r (t # s) = (case re_match U r (t # s, []) of
       [] \<Rightarrow> findall U r s
     | x # _ \<Rightarrow> result_of r (t # s) x #
         (if length (fst x) < length (t # s) then findall U r (fst x) else findall U r s))"
  by (subst findall.simps) (simp split: list.splits)

section \<open>Every extracted link matches a grammar\<close>

lemma matches_nullable: "matches U r w \<Longrightarrow> w = [] \<Longrightarrow> nullable r"
  by (induction rule: matches.induct) auto

lemma star_iter_sound:
  assumes f: "\<And>x x'. x' \<in> set (f x) \<Longrightarrow> \<exists>w. fst x = w @ fst x' \<and> matches U r w"
  shows "x' \<in> set (star_iter n f x) \<Longrightarrow> \<exists>w. fst x = w @ fst x' \<and> matches U (Star r) w"
proof (induction n arbitrary: x)
  case 0
  then have "x' = x" by simp
  then show ?case using mStarNone by fastforce
next
  case (Suc n)
  from Suc.prems have "x' = x \<or> (\<exists>y \<in> set (f x). x' \<in> set (star_iter n f y))"
    by (auto split: if_splits)
  then show ?case
  proof
    assume "x' = x"
    then show ?thesis using mStarNone by fastforce
  next
    assume "\<exists>y \<in> set (f x). x' \<in> set (star_iter n f y)"
    then obtain y where y: "y \<in> set (f x)" and x': "x' \<in> set (star_iter n f y)" by blast
    from f [OF y] obtain u where u: "fst x = u @ fst y" "matches U r u" by blast
    from Suc.IH [OF x'] obtain v where v: "fst y = v @ fst x'" "matches U (Star r) v" by blast
    from u v have "fst x = (u @ v) @ fst x'" by simp
    moreover from u v have "matches U (Star r) (u @ v)" by (simp add: mStar)
    ultimately show ?thesis by blast
  qed
qed

lemma rep_iter_sound:
  assumes f: "\<And>x x'. x' \<in> set (f x) \<Longrightarrow> \<exists>w. fst x = w @ fst x' \<and> matches U r w"
  shows "x' \<in> set (rep_iter n f x) \<Longrightarrow> \<exists>w. fst x = w @ fst x' \<and> matches U (Rep n r) w"
proof (induction n arbitrary: x)
  case 0
  then have "x' = x" by simp
  then show ?case using mRepNone by fastforce
next
  case (Suc n)
  from Suc.prems obtain y where y: "y \<in> set (f x)" and x': "x' \<in> set (rep_iter n f y)" by auto
  from f [OF y] obtain u where u: "fst x = u @ fst y" "matches U r u" by blast
  from Suc.IH [OF x'] obtain v where v: "fst y = v @ fst x'" "matches U (Rep n r) v" by blast
  from u v have "fst x = (u @ v) @ fst x'" by simp
  moreover from u v have "matches U (Rep (Suc n) r) (u @ v)" by (simp add: mRep)
  ultimately show ?case by blast
qed

lemma re_match_sound:
  "x' \<in> set (re_match U r x) \<Longrightarrow> \<exists>w. fst x = w @ fst x' \<and> matches U r w"
proof (induction r arbitrary: x x')
  case (Lit c)
  obtain s g where x: "x = (s, g)" by (cases x)
  from Lit show ?case unfolding x
    by (cases s) (auto split: if_splits intro: mLit)
next
  case (Cls neg items)
  obtain s g where x: "x = (s, g)" by (cases x)
  from Cls show ?case unfolding x
    by (cases s) (auto split: if_splits intro: mCls)
next
  case Eps
  then show ?case using mEps by fastforce
next
  case (Seq r1 r2)
  from Seq.prems obtain y where y: "y \<in> set (re_match U r1 x)" and x': "x' \<in> set (re_match U r2 y)"
    by auto
  from Seq.IH(1) [OF y] obtain u where u: "fst x = u @ fst y" "matches U r1 u" by blast
  from Seq.IH(2) [OF x'] obtain v where v: "fst y = v @ fst x'" "matches U r2 v" by blast
  from u v have "fst x = (u @ v) @ fst x'" by simp
  moreover from u v have "matches U (Seq r1 r2) (u @ v)" by (simp add: mSeq)
  ultimately show ?case by blast
next
  case (Opt r)
  from Opt.prems have "x' \<in> set (re_match U r x) \<or> x' = x" by auto
  then show ?case
  proof
    assume "x' \<in> set (re_match U r x)"
    from Opt.IH [OF this] show ?thesis using mOpt by blast
  next
    assume "x' = x"
    then show ?thesis using mOptNone by fastforce
  qed
next
  case (Star r)
  from Star.prems have "x' \<in> set (star_iter (length (fst x)) (re_match U r) x)" by simp
  then show ?case using star_iter_sound [of "re_match U r" U r x'] Star.IH by blast
next
  case (Plus r)
  from Plus.prems obtain y where y: "y \<in> set (re_match U r x)"
    and x': "x' \<in> set (star_iter (length (fst y)) (re_match U r) y)" by auto
  from Plus.IH [OF y] obtain u where u: "fst x = u @ fst y" "matches U r u" by blast
  from star_iter_sound [of "re_match U r" U r x', OF Plus.IH x']
  obtain v where v: "fst y = v @ fst x'" "matches U (Star r) v" by blast
  from u v have "fst x = (u @ v) @ fst x'" by simp
  moreover from u v have "matches U (Plus r) (u @ v)" by (simp add: mPlus)
  ultimately show ?case by blast
next
  case (Rep n r)
  from Rep.prems have "x' \<in> set (rep_iter n (re_match U r) x)" by simp
  then show ?case using rep_iter_sound [of "re_match U r" U r x'] Rep.IH by blast
next
  case (Grp k r)
  obtain s g where x: "x = (s, g)" by (cases x)
  from Grp.prems obtain y where y: "y \<in> set (re_match U r (s, g))" and f: "fst x' = fst y"
    unfolding x by auto
  from Grp.IH [OF y] obtain w where "s = w @ fst y" "matches U r w" by auto
  then show ?case unfolding x f using mGrp by fastforce
qed

lemma outer_group_state:
  assumes "x \<in> set (re_match U (Grp k r) (s, g))"
  shows "\<exists>w g'. snd x = (k, w) # g' \<and> s = w @ fst x \<and> matches U r w"
proof -
  from assms obtain y where y: "y \<in> set (re_match U r (s, g))"
    and x: "x = (fst y, (k, take (length s - length (fst y)) s) # snd y)"
    by (auto simp: case_prod_beta)
  from re_match_sound [OF y] obtain w where w: "s = w @ fst y" "matches U r w" by auto
  then have "take (length s - length (fst y)) s = w" by simp
  with x w show ?thesis by simp
qed

lemma result_of_good:
  assumes p: "good_pattern p" and x: "x \<in> set (re_match U p (s, []))"
  shows "\<exists>w. matches U p w \<and> add_match links (result_of p s x) = insert w links
           \<and> set (strs [result_of p s x]) \<subseteq> {w}"
proof -
  from p obtain r where pr: "p = Grp 1 r" and nn: "\<not> nullable r" by (cases p) auto
  from outer_group_state [OF x [unfolded pr]]
  obtain w g' where g: "snd x = (1, w) # g'" and m: "matches U r w" by blast
  from m nn have ne: "w \<noteq> []" using matches_nullable by blast
  from m have mp: "matches U p w" unfolding pr by (rule mGrp)
  have gv: "group_val (snd x) 1 = w" by (simp add: g group_val_def)
  show ?thesis
  proof (cases "ngroups r = 0")
    case True
    then have "result_of p s x = Str w"
      unfolding pr result_of_def using gv by (simp add: case_prod_beta)
    with mp show ?thesis by auto
  next
    case False
    then have u: "[1..<Suc (Suc (ngroups r))] = 1 # [2..<Suc (Suc (ngroups r))]"
      by (simp add: upt_conv_Cons numeral_2_eq_2)
    have "result_of p s x = Tuple (map (group_val (snd x)) [1..<Suc (Suc (ngroups r))])"
      unfolding pr result_of_def using False by (simp add: case_prod_beta)
    then have "result_of p s x = Tuple (w # map (group_val (snd x)) [2..<Suc (Suc (ngroups r))])"
      unfolding u using gv by simp
    with mp ne show ?thesis by auto
  qed
qed

lemma findall_results:
  "m \<in> set (findall U p s) \<Longrightarrow> \<exists>s0 x. x \<in> set (re_match U p (s0, [])) \<and> m = result_of p s0 x"
proof (induction U p s rule: findall.induct)
  case (1 U r s)
  show ?case
  proof (cases "re_match U r (s, [])")
    case Nil
    show ?thesis
    proof (cases s)
      case Nil': Nil
      from "1.prems" Nil Nil' show ?thesis by (subst (asm) findall.simps) simp
    next
      case (Cons t s')
      from "1.prems" Nil Cons have "m \<in> set (findall U r s')"
        by (subst (asm) findall.simps) simp
      from "1.IH"(1) [OF Nil Cons this] show ?thesis .
    qed
  next
    case (Cons x xs)
    then have xin: "x \<in> set (re_match U r (s, []))" by simp
    show ?thesis
    proof (cases "m = result_of r s x")
      case True
      with xin show ?thesis by blast
    next
      case False
      show ?thesis
      proof (cases "length (fst x) < length s")
        case True
        from "1.prems" Cons False True have "m \<in> set (findall U r (fst x))"
          by (subst (asm) findall.simps) simp
        from "1.IH"(2) [OF Cons True this] show ?thesis .
      next
        case shorter: False
        show ?thesis
        proof (cases s)
          case Nil
          from "1.prems" Cons False shorter Nil show ?thesis
            by (subst (asm) findall.simps) simp
        next
          case Cons2: (Cons t s')
          from "1.prems" Cons False shorter Cons2 have "m \<in> set (findall U r s')"
            by (subst (asm) findall.simps) simp
          from "1.IH"(3) [OF Cons shorter Cons2 this] show ?thesis .
        qed
      qed
    qed
  qed
qed

lemma foldl_add_match_sound:
  assumes p: "good_pattern p"
    and ms: "\<And>m. m \<in> set ms \<Longrightarrow> \<exists>s0 x. x \<in> set (re_match U p (s0, [])) \<and> m = result_of p s0 x"
  shows "foldl add_match links ms \<subseteq> links \<union> {w. matches U p w}"
  using ms
proof (induction ms arbitrary: links)
  case Nil
  show ?case by simp
next
  case (Cons m ms)
  from Cons.prems [of m] obtain s0 x where x: "x \<in> set (re_match U p (s0, []))"
    and m: "m = result_of p s0 x" by auto
  from result_of_good [OF p x, of links] obtain w where w: "matches U p w"
    "add_match links m = insert w links" unfolding m by blast
  have "foldl add_match (add_match links m) ms \<subseteq> add_match links m \<union> {w. matches U p w}"
    by (rule Cons.IH, rule Cons.prems, simp)
  with w show ?case by auto
qed

lemma add_matches_sound:
  "good_pattern p \<Longrightarrow> add_matches U txt links p \<subseteq> links \<union> {w. matches U p w}"
  unfolding add_matches_def by (rule foldl_add_match_sound, assumption, erule findall_results)

lemma strs_sound:
  assumes p: "good_pattern p"
    and ms: "\<And>m. m \<in> set ms \<Longrightarrow> \<exists>s0 x. x \<in> set (re_match U p (s0, [])) \<and> m = result_of p s0 x"
  shows "set (strs ms) \<subseteq> {w. matches U p w}"
  using ms
proof (induction ms)
  case Nil
  show ?case by simp
next
  case (Cons m ms)
  from Cons.prems [of m] obtain s0 x where x: "x \<in> set (re_match U p (s0, []))"
    and m: "m = result_of p s0 x" by auto
  from result_of_good [OF p x, of "{}"] obtain w where w: "matches U p w"
    "set (strs [m]) \<subseteq> {w}" unfolding m by blast
  have r: "set (strs ms) \<subseteq> {w. matches U p w}" by (rule Cons.IH, rule Cons.prems, simp)
  have "set (strs (m # ms)) = set (strs [m]) \<union> set (strs ms)" by (cases m) simp_all
  with w r show ?case by auto
qed

lemma update_sound:
  assumes p: "good_pattern p"
  shows "update links (findall U p txt) \<subseteq> links \<union> {w. matches U p w}"
proof -
  have "set (strs (findall U p txt)) \<subseteq> {w. matches U p w}"
    by (rule strs_sound [OF p]) (erule findall_results)
  then show ?thesis unfolding update_def by auto
qed

lemma foldl_add_matches_sound:
  "\<forall>p \<in> set ps. good_pattern p \<Longrightarrow>
   foldl (add_matches U txt) links ps \<subseteq> links \<union> {w. \<exists>p \<in> set ps. matches U p w}"
proof (induction ps arbitrary: links)
  case Nil
  show ?case by simp
next
  case (Cons p ps)
  then have gp: "good_pattern p" and gps: "\<forall>p \<in> set ps. good_pattern p" by simp_all
  have "foldl (add_matches U txt) (add_matches U txt links p) ps
      \<subseteq> add_matches U txt links p \<union> {w. \<exists>p \<in> set ps. matches U p w}"
    by (rule Cons.IH [OF gps])
  with add_matches_sound [OF gp, of U "txt" links] show ?case by auto
qed

lemmas pattern_defs = lits_def ulits_def cat_def http_s_def tok_def hex_lower_upper_def
  hex_upper_def pat_115cdn_def pat_magnet_def pat_ed2k_def

lemma good_s_link_patterns: "\<forall>p \<in> set s_link_patterns. good_pattern p"
  by (simp add: s_link_patterns_def pattern_defs)

lemma good_link_patterns: "\<forall>p \<in> set link_patterns. good_pattern p"
  by (simp add: link_patterns_def pattern_defs)

lemma good_domain_pattern: "good_pattern (domain_pattern d)"
  by (simp add: domain_pattern_def pattern_defs)

lemma good_wide_patterns: "good_pattern magnet_pattern" "good_pattern ed2k_pattern"
  by (simp_all add: magnet_pattern_def ed2k_pattern_def pattern_defs)

lemma domain_step_sound:
  "domain_step U txt links d \<subseteq> links \<union> {w. \<exists>p. domain_grammar d = Some p \<and> matches U p w}"
proof (cases "domain_grammar d")
  case None
  then have "domain_step U txt links d = links"
    by (auto simp: domain_step_def domain_grammar_def split: if_splits)
  then show ?thesis by simp
next
  case (Some p)
  then have p: "p = domain_pattern (cjk_only d) \<or> p = domain_pattern d"
    by (auto simp: domain_grammar_def split: if_splits)
  then have g: "good_pattern p" using good_domain_pattern by auto
  from Some have "domain_step U txt links d = links \<or> domain_step U txt links d = update links (findall U p txt)"
    by (auto simp: domain_step_def domain_grammar_def split: if_splits)
  with update_sound [OF g, of links U "txt"] Some show ?thesis by auto
qed

lemma foldl_domain_step_sound:
  "foldl (domain_step U txt) links ds \<subseteq>
     links \<union> {w. \<exists>d \<in> set ds. \<exists>p. domain_grammar d = Some p \<and> matches U p w}"
proof (induction ds arbitrary: links)
  case Nil
  show ?case by simp
next
  case (Cons d ds)
  have "foldl (domain_step U txt) (domain_step U txt links d) ds \<subseteq>
     domain_step U txt links d \<union> {w. \<exists>d \<in> set ds. \<exists>p. domain_grammar d = Some p \<and> matches U p w}"
    by (rule Cons.IH)
  with domain_step_sound [of U "txt" links d] show ?case by auto
qed

lemma foldl_domains_sound:
  "foldl (\<lambda>links (kind, domains). foldl (domain_step U txt) links domains) links cds \<subseteq>
     links \<union> {w. \<exists>kd \<in> set cds. \<exists>d \<in> set (snd kd). \<exists>p. domain_grammar d = Some p \<and> matches U p w}"
proof (induction cds arbitrary: links)
  case Nil
  show ?case by simp
next
  case (Cons kd cds)
  obtain kind domains where kd: "kd = (kind, domains)" by (cases kd)
  have "foldl (\<lambda>links (kind, domains). foldl (domain_step U txt) links domains)
          (foldl (domain_step U txt) links domains) cds \<subseteq>
        foldl (domain_step U txt) links domains \<union>
          {w. \<exists>kd \<in> set cds. \<exists>d \<in> set (snd kd). \<exists>p. domain_grammar d = Some p \<and> matches U p w}"
    by (rule Cons.IH)
  moreover note foldl_domain_step_sound [of U "txt" links domains]
  ultimately have "foldl (\<lambda>links (kind, domains). foldl (domain_step U txt) links domains)
          (foldl (domain_step U txt) links domains) cds \<subseteq>
        links \<union> {w. \<exists>kd \<in> set (kd # cds). \<exists>d \<in> set (snd kd). \<exists>p. domain_grammar d = Some p \<and> matches U p w}"
    unfolding kd by auto
  then show ?case unfolding kd by simp
qed

lemma grammars_members:
  "p \<in> set s_link_patterns \<Longrightarrow> p \<in> set grammars"
  "p \<in> set link_patterns \<Longrightarrow> p \<in> set grammars"
  "kd \<in> set cloud_domains \<Longrightarrow> d \<in> set (snd kd) \<Longrightarrow> domain_grammar d = Some p \<Longrightarrow> p \<in> set grammars"
  "magnet_pattern \<in> set grammars" "ed2k_pattern \<in> set grammars"
proof -
  show "p \<in> set s_link_patterns \<Longrightarrow> p \<in> set grammars" by (simp add: grammars_def)
  show "p \<in> set link_patterns \<Longrightarrow> p \<in> set grammars" by (simp add: grammars_def)
  show "magnet_pattern \<in> set grammars" by (simp add: grammars_def)
  show "ed2k_pattern \<in> set grammars" by (simp add: grammars_def)
  assume kd: "kd \<in> set cloud_domains" and d: "d \<in> set (snd kd)" and p: "domain_grammar d = Some p"
  obtain kind domains where e: "kd = (kind, domains)" by (cases kd)
  from d p e have "p \<in> set (concat (map (\<lambda>d. case domain_grammar d of None \<Rightarrow> [] | Some p \<Rightarrow> [p]) domains))"
    by simp (rule bexI [of _ d], simp_all)
  with kd e have "p \<in> set (concat (map (\<lambda>(kind, domains).
      concat (map (\<lambda>d. case domain_grammar d of None \<Rightarrow> [] | Some p \<Rightarrow> [p]) domains)) cloud_domains))"
    by simp (rule bexI [of _ kd], simp_all)
  then show "p \<in> set grammars" unfolding grammars_def by simp
qed

lemma extract_links_sound:
  assumes "l \<in> extract_links U txt"
  shows "\<exists>p \<in> set grammars. matches U p l"
proof -
  let ?S = "{w. \<exists>p \<in> set grammars. matches U p w}"
  have 1: "extract_s_links U txt \<subseteq> ?S"
    using foldl_add_matches_sound [OF good_s_link_patterns, of U "txt" "{}"] grammars_members(1)
    unfolding extract_s_links_def by blast
  have 2: "foldl (add_matches U txt) (extract_s_links U txt) link_patterns \<subseteq> ?S"
    using foldl_add_matches_sound [OF good_link_patterns, of U "txt" "extract_s_links U txt"]
      grammars_members(2) 1 by blast
  let ?L3 = "foldl (\<lambda>links (kind, domains). foldl (domain_step U txt) links domains)
      (foldl (add_matches U txt) (extract_s_links U txt) link_patterns) cloud_domains"
  have 3: "?L3 \<subseteq> ?S"
    using foldl_domains_sound [of U "txt" "foldl (add_matches U txt) (extract_s_links U txt) link_patterns" cloud_domains]
      grammars_members(3) 2 by blast
  have 4: "update ?L3 (findall U magnet_pattern txt) \<subseteq> ?S"
    using update_sound [OF good_wide_patterns(1), of ?L3 U "txt"] grammars_members(4) 3 by blast
  have 5: "update (update ?L3 (findall U magnet_pattern txt)) (findall U ed2k_pattern txt) \<subseteq> ?S"
    using update_sound [OF good_wide_patterns(2), of "update ?L3 (findall U magnet_pattern txt)" U "txt"]
      grammars_members(5) 4 by blast
  from assms have "l \<in> update (update ?L3 (findall U magnet_pattern txt)) (findall U ed2k_pattern txt)"
    by (simp add: extract_links_def Let_def)
  with 5 show ?thesis by blast
qed

text \<open>
  C7. For every text (and all Unicode tables) the extraction is a total function: it
  returns, and what it returns is a finite set, so no string is in it twice; and every
  member of the set is, as a whole, a match of one of the grammars: an /s/ pattern
  (curated or generic), a pattern of the catalogue, a pattern of the domain pass, or one
  of the two wide patterns for magnet and ed2k links.
\<close>

theorem C7_extract_total_and_sound:
  "finite (extract_links U txt) \<and> (\<forall>l \<in> extract_links U txt. \<exists>p \<in> set grammars. matches U p l)"
  using finite_extract_links extract_links_sound by blast

section \<open>Properties of loading\<close>

lemma loaded_lines_simps:
  "loaded_lines U [] = {}"
  "loaded_lines U (l # ls) = (if strip U l \<noteq> [] then insert (strip U l) (loaded_lines U ls) else loaded_lines U ls)"
  by (auto simp: loaded_lines_def)


lemma foldl_add_line:
  "foldl (add_line U) st ls = st\<lparr>crawled_links := crawled_links st \<union> loaded_lines U ls\<rparr>"
proof (induction ls arbitrary: st)
  case Nil
  show ?case by (simp add: loaded_lines_simps)
next
  case (Cons l ls)
  have "foldl (add_line U) st (l # ls) = foldl (add_line U) (add_line U st l) ls" by simp
  also have "\<dots> = (add_line U st l)\<lparr>crawled_links :=
      crawled_links (add_line U st l) \<union> loaded_lines U ls\<rparr>" by (rule Cons)
  also have "\<dots> = st\<lparr>crawled_links := crawled_links st \<union> loaded_lines U (l # ls)\<rparr>"
    by (simp add: add_line_def loaded_lines_simps)
  finally show ?case .
qed

lemma chars_map_Ch: "chars (map Ch s) = s"
  by (induction s) simp_all

lemma chars_append: "chars (a @ b) = chars a @ chars b"
  by (induction a rule: chars.induct) simp_all

lemma invalid_at_None: "(invalid_at off data = None) = (Invalid \<notin> set data)"
  by (induction off data rule: invalid_at.induct) simp_all








lemma load_readable:
  assumes "fs (all_links_file st) = Some data" "Invalid \<notin> set data"
  shows "load_existing_links U fs st =
    (st\<lparr>crawled_links := crawled_links st \<union> loaded_lines U (readlines (chars data))\<rparr>, False)"
proof -
  from assms(2) have "invalid_at 0 data = None" by (simp add: invalid_at_None)
  with assms(1) show ?thesis by (simp add: load_existing_links_def foldl_add_line)
qed



lemma readlines_abc: "readlines text_abc = [asc ''a'' @ [10], asc ''b'' @ [10], asc ''c'' @ [10]]"
  by (simp add: readlines_def text_abc_def asc_def ch_def)

lemma loaded_abc: "loaded_lines U (readlines text_abc) = {asc ''a'', asc ''b'', asc ''c''}"
  unfolding readlines_abc
  by (simp add: loaded_lines_simps strip_def is_space_def asc_def ch_def)


lemma store_abc_file: "store_abc (all_links_file crawler0) = Some (map Ch text_abc)"
  by (simp add: store_abc_def crawler0_def)




lemma universal_newlines_id: "13 \<notin> set s \<Longrightarrow> universal_newlines s = s"
  by (induction s rule: universal_newlines.induct) auto

lemma split_lines_line: "10 \<notin> set l \<Longrightarrow> split_lines cur (l @ 10 # s) = (cur @ l @ [10]) # split_lines [] s"
  by (induction l arbitrary: cur) auto






section \<open>Snapshot, master file and failure log\<close>

lemma digits_small: "n < 10 \<Longrightarrow> digits n = [48 + n]"
  by (subst digits.simps) simp

lemma zpad_two: "n < 100 \<Longrightarrow> zpad 2 n = [48 + n div 10, 48 + n mod 10]"
proof (cases "n < 10")
  case True
  then show ?thesis by (simp add: zpad_def digits_small)
next
  case False
  assume "n < 100"
  with False have "n div 10 < 10" by simp
  then have "digits n = [48 + n div 10, 48 + n mod 10]"
    using False by (subst digits.simps) (simp add: digits_small)
  then show ?thesis by (simp add: zpad_def)
qed

lemma timestamp_filename_digits:
  "month t < 100 \<Longrightarrow> day t < 100 \<Longrightarrow> hour t < 100 \<Longrightarrow> minute t < 100 \<Longrightarrow>
   get_timestamp_filename t =
     [48 + month t div 10, 48 + month t mod 10, 48 + day t div 10, 48 + day t mod 10,
      48 + hour t div 10, 48 + hour t mod 10, 48 + minute t div 10, 48 + minute t mod 10] @ asc ''.txt''"
  by (simp add: get_timestamp_filename_def zpad_two)

lemma timestamp_filename_minute:
  "month t1 = month t2 \<Longrightarrow> day t1 = day t2 \<Longrightarrow> hour t1 = hour t2 \<Longrightarrow> minute t1 = minute t2 \<Longrightarrow>
   get_timestamp_filename t1 = get_timestamp_filename t2"
  by (simp add: get_timestamp_filename_def)

lemma timestamp_filename_not_log: "get_timestamp_filename t \<noteq> asc ''failed_feeds.log''"
proof
  assume "get_timestamp_filename t = asc ''failed_feeds.log''"
  then have "last (get_timestamp_filename t) = last (asc ''failed_feeds.log'')" by simp
  then show False by (simp add: get_timestamp_filename_def asc_def ch_def)
qed

lemma save_links_files:
  "snd (save_links iter t_n t_h new (st, fs)) =
     (if new = {} then fs
      else append_file
             (write_file fs (get_timestamp_filename t_n)
                (snapshot_header t_h (card new) @ link_lines (iter new)))
             (all_links_file st) (link_lines (iter new)))"
  by (simp add: save_links_eq link_lines_def)

lemma save_links_state:
  "fst (save_links iter t_n t_h new (st, fs)) =
     (if new = {} then st else st\<lparr>crawled_links := crawled_links st \<union> set (iter new)\<rparr>)"
  by (simp add: save_links_eq)

lemma file_data_append:
  "file_data (append_file fs path text) p =
     (if p = path then file_data fs p @ map Ch text else file_data fs p)"
  by (simp add: file_data_def append_file_def)

lemma file_data_write:
  "file_data (write_file fs path text) p = (if p = path then map Ch text else file_data fs p)"
  by (simp add: file_data_def write_file_def)

lemma snapshot_replaced:
  assumes "new1 \<noteq> {}" "new2 \<noteq> {}"
    and "get_timestamp_filename t2 = get_timestamp_filename t1"
    and "all_links_file st \<noteq> get_timestamp_filename t1"
  shows "file_data (snd (save_links iter t2 h2 new2 (save_links iter t1 h1 new1 (st, fs))))
       (get_timestamp_filename t1)
     = map Ch (snapshot_header h2 (card new2) @ link_lines (iter new2))"
proof -
  obtain st1 fs1 where s1: "save_links iter t1 h1 new1 (st, fs) = (st1, fs1)"
    by (cases "save_links iter t1 h1 new1 (st, fs)")
  have "st1 = fst (save_links iter t1 h1 new1 (st, fs))" by (simp add: s1)
  then have a: "all_links_file st1 = all_links_file st" by (simp add: save_links_state)
  show ?thesis unfolding s1 save_links_files
    using assms a by (simp add: file_data_append file_data_write)
qed

lemma master_appended:
  assumes "all_links_file st \<noteq> get_timestamp_filename t1"
  shows "file_data (snd (save_links iter t1 h1 new (st, fs))) (all_links_file st)
     = file_data fs (all_links_file st) @ map Ch (if new = {} then [] else link_lines (iter new))"
  unfolding save_links_files using assms by (simp add: file_data_append file_data_write)

lemma master_truncated:
  assumes "all_links_file st = get_timestamp_filename t1" "new \<noteq> {}"
  shows "file_data (snd (save_links iter t1 h1 new (st, fs))) (all_links_file st)
     = map Ch (snapshot_header h1 (card new) @ link_lines (iter new) @ link_lines (iter new))"
  unfolding save_links_files using assms by (simp add: file_data_append file_data_write)

lemma log_appended:
  "prefix (file_data fs (asc ''failed_feeds.log''))
     (file_data (snd (snd (run_cycle U iter env (st, fs)))) (asc ''failed_feeds.log''))"
  unfolding run_cycle_files Let_def
  by (simp add: file_data_append file_data_write timestamp_filename_not_log
      timestamp_filename_not_log [symmetric])

text \<open>
  C10, amended. The name of the snapshot file is made of the two digits each of month,
  day, hour and minute, so two readings of the clock in the same minute give the same
  name. The failure log keeps what it holds through a whole cycle. As long as the master
  file is not the file the snapshot is written to, it keeps what it holds and gets the
  new lines behind it, and of two calls of \<open>_save_links\<close> with links to save in the same
  minute the snapshot file holds the header and the links of the second only. When the
  master file is the file the snapshot is written to, the truncating open empties it: it
  then holds the snapshot followed by the links once more.
\<close>

theorem C10_snapshot_replaced_master_appended:
  "(month t1 < 100 \<and> day t1 < 100 \<and> hour t1 < 100 \<and> minute t1 < 100 \<longrightarrow>
      get_timestamp_filename t1 =
        [48 + month t1 div 10, 48 + month t1 mod 10, 48 + day t1 div 10, 48 + day t1 mod 10,
         48 + hour t1 div 10, 48 + hour t1 mod 10, 48 + minute t1 div 10, 48 + minute t1 mod 10]
        @ asc ''.txt'')
   \<and> (month t1 = month t2 \<and> day t1 = day t2 \<and> hour t1 = hour t2 \<and> minute t1 = minute t2 \<longrightarrow>
      get_timestamp_filename t2 = get_timestamp_filename t1)
   \<and> (new1 \<noteq> {} \<and> new2 \<noteq> {} \<and> get_timestamp_filename t2 = get_timestamp_filename t1
        \<and> all_links_file st \<noteq> get_timestamp_filename t1 \<longrightarrow>
      file_data (snd (save_links iter t2 h2 new2 (save_links iter t1 h1 new1 (st, fs))))
          (get_timestamp_filename t1)
        = map Ch (snapshot_header h2 (card new2) @ link_lines (iter new2)))
   \<and> (all_links_file st \<noteq> get_timestamp_filename t1 \<longrightarrow>
      file_data (snd (save_links iter t1 h1 new1 (st, fs))) (all_links_file st)
        = file_data fs (all_links_file st) @ map Ch (if new1 = {} then [] else link_lines (iter new1)))
   \<and> (all_links_file st = get_timestamp_filename t1 \<and> new1 \<noteq> {} \<longrightarrow>
      file_data (snd (save_links iter t1 h1 new1 (st, fs))) (all_links_file st)
        = map Ch (snapshot_header h1 (card new1) @ link_lines (iter new1) @ link_lines (iter new1)))
   \<and> prefix (file_data fs (asc ''failed_feeds.log''))
        (file_data (snd (snd (run_cycle U iter env (st, fs)))) (asc ''failed_feeds.log''))"
  using timestamp_filename_digits [of t1] timestamp_filename_minute [of t1 t2]
    snapshot_replaced [of new1 new2 t2 t1 st iter h2 h1 fs]
    master_appended [of st t1 iter h1 new1 fs] master_truncated [of st t1 new1 iter h1 fs]
    log_appended [of fs U iter env st]
  by simp

section \<open>Writing links and reading them back\<close>

lemma universal_newlines_append:
  "a = [] \<or> last a = 10 \<Longrightarrow> universal_newlines (a @ b) = universal_newlines a @ universal_newlines b"
proof (induction a rule: universal_newlines.induct)
  case 1
  show ?case by simp
next
  case (2 c)
  then have c: "c = 10" by simp
  show ?case unfolding c by (cases b) simp_all
next
  case (3 c d s)
  then show ?case by (auto split: if_splits)
qed

lemma universal_newlines_last:
  "a \<noteq> [] \<Longrightarrow> last a = 10 \<Longrightarrow> universal_newlines a \<noteq> [] \<and> last (universal_newlines a) = 10"
  by (induction a rule: universal_newlines.induct) (auto split: if_splits)

lemma split_lines_links:
  "\<forall>l \<in> set ls. 10 \<notin> set l \<Longrightarrow> split_lines [] (concat (map (\<lambda>link. link @ [10]) ls)) = map (\<lambda>link. link @ [10]) ls"
proof (induction ls)
  case Nil
  show ?case by simp
next
  case (Cons l ls)
  then have l: "10 \<notin> set l" and r: "\<forall>l \<in> set ls. 10 \<notin> set l" by simp_all
  have "split_lines [] (concat (map (\<lambda>link. link @ [10]) (l # ls)))
      = split_lines [] (l @ 10 # concat (map (\<lambda>link. link @ [10]) ls))" by simp
  also have "\<dots> = ([] @ l @ [10]) # split_lines [] (concat (map (\<lambda>link. link @ [10]) ls))"
    by (rule split_lines_line [OF l])
  finally show ?case using Cons.IH [OF r] by simp
qed

lemma split_lines_after_newline:
  "split_lines cur (a @ 10 # b) = split_lines cur (a @ [10]) @ split_lines [] b"
  by (induction a arbitrary: cur) auto

lemma split_lines_append:
  assumes "a = [] \<or> last a = 10"
  shows "split_lines [] (a @ b) = split_lines [] a @ split_lines [] b"
proof (cases "a = []")
  case True
  then show ?thesis by simp
next
  case False
  with assms have "a = butlast a @ [10]" by (metis append_butlast_last_id)
  then obtain a' where a: "a = a' @ [10]" ..
  show ?thesis unfolding a using split_lines_after_newline [of "[]" a' b] by simp
qed

lemma readlines_append_links:
  assumes old: "newline_ended old" and ls: "\<forall>l \<in> set ls. 10 \<notin> set l \<and> 13 \<notin> set l"
  shows "readlines (old @ concat (map (\<lambda>link. link @ [10]) ls))
     = readlines old @ map (\<lambda>link. link @ [10]) ls"
proof -
  let ?new = "concat (map (\<lambda>link. link @ [10]) ls)"
  from ls have "13 \<notin> set ?new" by auto
  then have n: "universal_newlines ?new = ?new" by (rule universal_newlines_id)
  from old have o: "old = [] \<or> last old = 10" by (simp add: newline_ended_def)
  then have u: "universal_newlines (old @ ?new) = universal_newlines old @ ?new"
    using universal_newlines_append [of old ?new] n by simp
  have "universal_newlines old = [] \<or> last (universal_newlines old) = 10"
  proof (cases "old = []")
    case True
    then show ?thesis by simp
  next
    case False
    with o universal_newlines_last [of old] show ?thesis by simp
  qed
  then have "split_lines [] (universal_newlines old @ ?new)
      = split_lines [] (universal_newlines old) @ split_lines [] ?new"
    by (rule split_lines_append)
  moreover from ls have "split_lines [] ?new = map (\<lambda>link. link @ [10]) ls"
    using split_lines_links [of ls] by simp
  ultimately show ?thesis unfolding readlines_def u by simp
qed

lemma strip_line: "line_safe U l \<Longrightarrow> strip U (l @ [10]) = l"
proof -
  assume s: "line_safe U l"
  then obtain c cs where l: "l = c # cs" and c: "\<not> is_space U c" by (cases l) (auto simp: line_safe_def)
  from s have e: "\<not> is_space U (last l)" and ne: "l \<noteq> []" by (auto simp: line_safe_def)
  have sp: "is_space U 10" by (simp add: is_space_def)
  have 1: "dropWhile (is_space U) (l @ [10]) = l @ [10]" unfolding l using c by simp
  from ne obtain b where b: "l = b @ [last l]" by (metis append_butlast_last_id)
  have 2: "rev (l @ [10]) = 10 # last l # rev b" by (subst b) simp
  have 3: "dropWhile (is_space U) (10 # last l # rev b) = last l # rev b" using e sp by simp
  have 4: "rev (last l # rev b) = l" by (subst (2) b) simp
  show ?thesis unfolding strip_def 1 2 3 4 by (rule refl)
qed

lemma loaded_lines_append: "loaded_lines U (xs @ ys) = loaded_lines U xs \<union> loaded_lines U ys"
  by (auto simp: loaded_lines_def)

lemma loaded_lines_links:
  "\<forall>l \<in> set ls. line_safe U l \<Longrightarrow> loaded_lines U (map (\<lambda>link. link @ [10]) ls) = set ls"
proof -
  assume a: "\<forall>l \<in> set ls. line_safe U l"
  then have "\<And>l. l \<in> set ls \<Longrightarrow> strip U (l @ [10]) = l \<and> l \<noteq> []"
    using strip_line by (auto simp: line_safe_def)
  then show ?thesis by (force simp: loaded_lines_def)
qed

lemma Invalid_map_Ch: "Invalid \<notin> set (map Ch s)"
  by auto

lemma reload_text:
  "Invalid \<notin> set (file_data fs (all_links_file st)) \<Longrightarrow>
   reload U fs st = loaded_lines U (readlines (file_text fs (all_links_file st)))"
proof (cases "fs (all_links_file st)")
  case None
  then show ?thesis
    by (simp add: reload_def load_existing_links_def file_text_def file_data_def readlines_def
        loaded_lines_simps)
next
  case (Some old)
  assume "Invalid \<notin> set (file_data fs (all_links_file st))"
  with Some have "Invalid \<notin> set old" by (simp add: file_data_def)
  with Some have "load_existing_links U fs (st\<lparr>crawled_links := {}\<rparr>) =
      (st\<lparr>crawled_links := {} \<union> loaded_lines U (readlines (chars old))\<rparr>, False)"
    using load_readable [of fs "st\<lparr>crawled_links := {}\<rparr>" old U] by simp
  with Some show ?thesis by (simp add: reload_def file_text_def file_data_def)
qed

lemma master_text_appended:
  assumes "all_links_file st \<noteq> get_timestamp_filename t1"
  shows "file_text (snd (save_links iter t1 h1 new (st, fs))) (all_links_file st)
     = file_text fs (all_links_file st) @ (if new = {} then [] else link_lines (iter new))"
  by (simp add: file_text_def master_appended [OF assms] chars_append chars_map_Ch)

lemma link_lines_last: "ls \<noteq> [] \<Longrightarrow> link_lines ls \<noteq> [] \<and> last (link_lines ls) = 10"
  unfolding link_lines_def by (induction ls rule: rev_induct) simp_all

text \<open>
  C4, amended. Let every recorded link be non-empty, without a line feed or carriage
  return in it and without white space at its ends, let the store be absent, empty or
  ended by a line feed and hold no byte that does not decode, and let the master file
  not be the snapshot file. Then a crawler made anew after \<open>_save_links\<close> loads what it
  would have loaded before together with the recorded links, and the store is again
  ended by a line feed and without a byte that does not decode, so the same holds for
  every later recording. In memory, recording a set once or twice gives the same
  seen-set: the old one together with the recorded links.
\<close>

theorem C4_round_trip_line_safe:
  "(set (iter new) = new \<and> (\<forall>l \<in> new. line_safe U l)
      \<and> Invalid \<notin> set (file_data fs (all_links_file st))
      \<and> newline_ended (file_text fs (all_links_file st))
      \<and> all_links_file st \<noteq> get_timestamp_filename t_n \<longrightarrow>
        reload U (snd (save_links iter t_n t_h new (st, fs))) st = reload U fs st \<union> new
      \<and> newline_ended (file_text (snd (save_links iter t_n t_h new (st, fs))) (all_links_file st))
      \<and> Invalid \<notin> set (file_data (snd (save_links iter t_n t_h new (st, fs))) (all_links_file st)))
   \<and> (set (iter new) = new \<longrightarrow>
        crawled_links (fst (save_links iter t_n t_h new (st, fs))) = crawled_links st \<union> new
      \<and> crawled_links (fst (save_links iter t_n2 t_h2 new (save_links iter t_n t_h new (st, fs))))
          = crawled_links st \<union> new)"
proof (intro conjI impI)
  assume h: "set (iter new) = new \<and> (\<forall>l \<in> new. line_safe U l)
      \<and> Invalid \<notin> set (file_data fs (all_links_file st))
      \<and> newline_ended (file_text fs (all_links_file st))
      \<and> all_links_file st \<noteq> get_timestamp_filename t_n"
  let ?old = "file_text fs (all_links_file st)"
  let ?fs' = "snd (save_links iter t_n t_h new (st, fs))"
  from h have f: "file_text ?fs' (all_links_file st) = ?old @ (if new = {} then [] else link_lines (iter new))"
    using master_text_appended [of st t_n iter t_h new fs] by simp
  from h have v: "Invalid \<notin> set (file_data fs (all_links_file st))" by simp
  from h have "file_data ?fs' (all_links_file st)
      = file_data fs (all_links_file st) @ map Ch (if new = {} then [] else link_lines (iter new))"
    using master_appended [of st t_n iter t_h new fs] by simp
  with v show v': "Invalid \<notin> set (file_data ?fs' (all_links_file st))" by auto
  have r: "reload U fs st = loaded_lines U (readlines ?old)" by (rule reload_text [OF v])
  have r': "reload U ?fs' st = loaded_lines U (readlines (file_text ?fs' (all_links_file st)))"
    by (rule reload_text [OF v'])
  show "reload U ?fs' st = reload U fs st \<union> new"
  proof (cases "new = {}")
    case True
    with f have "file_text ?fs' (all_links_file st) = ?old" by simp
    then show ?thesis unfolding r r' using True by simp
  next
    case False
    from h have ls: "\<forall>l \<in> set (iter new). 10 \<notin> set l \<and> 13 \<notin> set l"
      and safe: "\<forall>l \<in> set (iter new). line_safe U l" by (auto simp: line_safe_def)
    from h have "newline_ended ?old" by simp
    from readlines_append_links [OF this ls]
    have "readlines (?old @ link_lines (iter new)) = readlines ?old @ map (\<lambda>link. link @ [10]) (iter new)"
      by (simp add: link_lines_def)
    then have "loaded_lines U (readlines (?old @ link_lines (iter new)))
        = loaded_lines U (readlines ?old) \<union> set (iter new)"
      by (simp add: loaded_lines_append loaded_lines_links [OF safe])
    moreover from f False have "file_text ?fs' (all_links_file st) = ?old @ link_lines (iter new)"
      by simp
    ultimately show ?thesis unfolding r r' using h by simp
  qed
  show "newline_ended (file_text ?fs' (all_links_file st))"
  proof (cases "new = {}")
    case True
    with f h show ?thesis by simp
  next
    case False
    with h have "iter new \<noteq> []" by auto
    from link_lines_last [OF this] False f show ?thesis by (simp add: newline_ended_def)
  qed
next
  assume h: "set (iter new) = new"
  then show 1: "crawled_links (fst (save_links iter t_n t_h new (st, fs))) = crawled_links st \<union> new"
    by (simp add: save_links_state)
  obtain st1 fs1 where s1: "save_links iter t_n t_h new (st, fs) = (st1, fs1)"
    by (cases "save_links iter t_n t_h new (st, fs)")
  from 1 have c: "crawled_links st1 = crawled_links st \<union> new" by (simp add: s1)
  show "crawled_links (fst (save_links iter t_n2 t_h2 new (save_links iter t_n t_h new (st, fs))))
          = crawled_links st \<union> new"
    unfolding s1 using h c by (auto simp: save_links_state)
qed

section \<open>Evaluated inputs\<close>

lemmas eval_text = asc_def ch_def casekey_def is_word_def is_space_def
lemmas eval_pats = lits_def ulits_def cat_def http_s_def tok_def hex_lower_upper_def hex_upper_def
  pat_115cdn_def pat_magnet_def pat_ed2k_def domain_pattern_def magnet_pattern_def ed2k_pattern_def
lemmas eval_find = findall_skip findall_end findall_try result_of_def group_val_def

lemma share_s_links: "extract_s_links U share_text = {share_link}"
  by (simp add: extract_s_links_def s_link_patterns_def add_matches_def share_text_def
      share_link_def eval_text eval_pats eval_find)

lemma share_catalogue:
  "foldl (add_matches U share_text) {share_link} link_patterns = {share_link}"
  by (simp add: link_patterns_def add_matches_def share_text_def
      share_link_def eval_text eval_pats eval_find)

lemma share_domains:
  "foldl (\<lambda>links (kind, domains). foldl (domain_step U share_text) links domains)
     {share_link} cloud_domains = {share_link}"
  by (simp add: cloud_domains_def domain_step_def update_def cjk_only_def share_text_def
      share_link_def eval_text eval_pats eval_find)

lemma share_wide:
  "findall U magnet_pattern share_text = [] \<and> findall U ed2k_pattern share_text = []"
  by (simp add: share_text_def eval_text eval_pats eval_find)

lemma share_extract: "extract_links U share_text = {share_link}"
  by (simp add: extract_links_def share_s_links share_catalogue share_domains share_wide update_def)

text \<open>
  C6. For the text "share: https://pan.baidu.com/s/1abcXYZ more text" the extraction
  returns the set whose only member is "https://pan.baidu.com/s/1abcXYZ": the passes over
  the /s/ patterns, the catalogue, the domain labels and the two wide patterns add no
  other string, whatever the Unicode tables say about non-ASCII characters.
\<close>

theorem C6_extract_share_text:
  "extract_links U (asc ''share: https://pan.baidu.com/s/1abcXYZ more text'')
     = {asc ''https://pan.baidu.com/s/1abcXYZ''}"
  using share_extract [of U] by (simp only: share_text_def share_link_def)

text \<open>
  The same text with the line feed that closes the title of an entry, and the entry
  whose title and summary together hold an ed2k link.
\<close>

lemma rep_iter_numeral:
  "rep_iter (numeral n) f x = concat (map (rep_iter (pred_numeral n) f) (f x))"
  by (simp add: numeral_eq_Suc)

lemma line_s_links: "extract_s_links U share_line = {share_link}"
  by (simp add: extract_s_links_def s_link_patterns_def add_matches_def share_line_def share_text_def
      share_link_def eval_text eval_pats eval_find)

lemma line_catalogue:
  "foldl (add_matches U share_line) {share_link} link_patterns = {share_link}"
  by (simp add: link_patterns_def add_matches_def share_line_def share_text_def
      share_link_def eval_text eval_pats eval_find)

lemma line_domains:
  "foldl (\<lambda>links (kind, domains). foldl (domain_step U share_line) links domains)
     {share_link} cloud_domains = {share_link}"
  by (simp add: cloud_domains_def domain_step_def update_def cjk_only_def share_line_def share_text_def
      share_link_def eval_text eval_pats eval_find)

lemma line_wide:
  "findall U magnet_pattern share_line = [] \<and> findall U ed2k_pattern share_line = []"
  by (simp add: share_line_def share_text_def eval_text eval_pats eval_find)

lemma line_extract: "extract_links U share_line = {share_link}"
  by (simp add: extract_links_def line_s_links line_catalogue line_domains line_wide update_def)

lemma ed2k_s_links: "extract_s_links U (entry_text entry_ed2k) = {}"
  by (simp add: extract_s_links_def s_link_patterns_def add_matches_def entry_text_def entry_ed2k_def
      ed2k_head_def ed2k_tail_def eval_text eval_pats eval_find)

lemma ed2k_catalogue:
  "foldl (add_matches U (entry_text entry_ed2k)) {} link_patterns = {ed2k_link}"
  by (simp add: link_patterns_def add_matches_def entry_text_def entry_ed2k_def ed2k_link_def
      ed2k_head_def ed2k_tail_def eval_text eval_pats eval_find rep_iter_numeral)

lemma ed2k_domains:
  "foldl (\<lambda>links (kind, domains). foldl (domain_step U (entry_text entry_ed2k)) links domains)
     {ed2k_link} cloud_domains = {ed2k_link}"
  by (simp add: cloud_domains_def domain_step_def update_def cjk_only_def entry_text_def entry_ed2k_def
      ed2k_head_def ed2k_tail_def eval_text eval_pats eval_find)

lemma ed2k_wide:
  "findall U magnet_pattern (entry_text entry_ed2k) = []
   \<and> findall U ed2k_pattern (entry_text entry_ed2k) = [Str ed2k_head]"
  by (simp add: entry_text_def entry_ed2k_def ed2k_head_def ed2k_tail_def eval_text eval_pats eval_find)

lemma ed2k_extract: "extract_links U (entry_text entry_ed2k) = {ed2k_link, ed2k_head}"
  by (simp add: extract_links_def ed2k_s_links ed2k_catalogue ed2k_domains ed2k_wide update_def
      insert_commute)

lemma iter0_enumerates: "\<forall>S. finite S \<longrightarrow> set (iter0 S) = S"
  by (simp add: iter0_def)

lemma iter0_single: "iter0 {x} = [x]"
  by (simp add: iter0_def)

lemma found_links_share: "found_links U parse_share [feed_a] = {share_link}"
proof -
  have "entry_text entry_share = share_line"
    by (simp add: entry_text_def entry_share_def share_line_def)
  then show ?thesis
    by (simp add: found_links_def three_attempts parse_share_def entries_links_def line_extract)
qed

text \<open>
  C2, witness: two cycles over a feed that carries the example text, starting with an
  empty seen-set: one new link in the first cycle, none in the second.
\<close>

theorem C2_no_link_emitted_twice_witness:
  "card (fst (run_cycles sample_db iter0 [env_share, env_share] (crawler0, no_files)) ! 0) = 1
   \<and> card (fst (run_cycles sample_db iter0 [env_share, env_share] (crawler0, no_files)) ! 1) = 0"
proof -
  have c: "set (as_completed env_share (rss_feeds crawler0)) = set (rss_feeds crawler0)"
    by (simp add: env_share_def)
  have f: "found_links sample_db (parse_feed env_share) (rss_feeds crawler0) - crawled_links crawler0
      = {share_link}"
    by (simp add: env_share_def crawler0_def found_links_share)
  from C2_no_link_emitted_twice [OF iter0_enumerates, of sample_db "[]" crawler0 no_files env_share env_share]
    c f show ?thesis by simp
qed

text \<open>C7, witness: the link extracted from the example text matches a grammar.\<close>

theorem C7_extract_total_and_sound_witness:
  "share_link \<in> extract_links sample_db share_text
   \<and> (\<exists>p \<in> set grammars. matches sample_db p share_link)"
  using C7_extract_total_and_sound [of sample_db share_text] share_extract [of sample_db] by simp

lemma timestamp_clock0: "get_timestamp_filename clock0 = asc ''01020304.txt''"
  by (simp add: get_timestamp_filename_def clock0_def zpad_def digits.simps asc_def ch_def)

lemma timestamp_clock1: "get_timestamp_filename clock1 = asc ''01020304.txt''"
  by (simp add: get_timestamp_filename_def clock1_def zpad_def digits.simps asc_def ch_def)

lemma master_not_snapshot: "all_links_file crawler0 \<noteq> get_timestamp_filename clock0"
  unfolding timestamp_clock0 by (simp add: crawler0_def asc_def ch_def)

lemma snapshot_is_master:
  "all_links_file crawler_named_like_snapshot = get_timestamp_filename clock0"
  unfolding timestamp_clock0 by (simp add: crawler_named_like_snapshot_def)

text \<open>
  C10, counterexample. A crawler whose output file is 01020304.txt, with the three lines
  a, b, c in it, saves the link x at 03:04 on the second of January. The snapshot is
  written to the master file itself: the open in mode \<open>w\<close> empties it, and the three
  lines are gone.
\<close>

theorem C10_master_truncated_by_snapshot:
  "file_text store_named_like_snapshot (all_links_file crawler_named_like_snapshot) = text_abc
   \<and> file_text (snd (save_links iter0 clock0 clock0 {asc ''x''}
          (crawler_named_like_snapshot, store_named_like_snapshot)))
        (all_links_file crawler_named_like_snapshot)
       = snapshot_header clock0 1 @ asc ''x'' @ [10] @ asc ''x'' @ [10]
   \<and> \<not> prefix text_abc
        (file_text (snd (save_links iter0 clock0 clock0 {asc ''x''}
            (crawler_named_like_snapshot, store_named_like_snapshot)))
          (all_links_file crawler_named_like_snapshot))"
proof -
  have 1: "file_text store_named_like_snapshot (all_links_file crawler_named_like_snapshot) = text_abc"
    by (simp add: file_text_def file_data_def store_named_like_snapshot_def
        crawler_named_like_snapshot_def chars_map_Ch)
  have n: "{asc ''x''} \<noteq> {}" by simp
  have 2: "file_text (snd (save_links iter0 clock0 clock0 {asc ''x''}
          (crawler_named_like_snapshot, store_named_like_snapshot)))
        (all_links_file crawler_named_like_snapshot)
       = snapshot_header clock0 1 @ asc ''x'' @ [10] @ asc ''x'' @ [10]"
    unfolding file_text_def master_truncated [OF snapshot_is_master n] chars_map_Ch
    by (simp add: iter0_single link_lines_def)
  have "\<not> prefix text_abc (snapshot_header clock0 1 @ asc ''x'' @ [10] @ asc ''x'' @ [10])"
    by (simp add: text_abc_def snapshot_header_def asc_def ch_def)
  with 1 2 show ?thesis by simp
qed

text \<open>
  C10, witness: five seconds and fifty-nine seconds past 03:04 on the second of January
  give the file name 01020304.txt; the snapshot holds the second link only; the master
  file all_links.txt keeps its three lines; the master file named 01020304.txt does not.
\<close>

theorem C10_snapshot_replaced_master_appended_witness:
  "get_timestamp_filename clock0 = asc ''01020304.txt''
   \<and> get_timestamp_filename clock1 = get_timestamp_filename clock0
   \<and> file_data (snd (save_links iter0 clock1 clock1 {asc ''b''}
          (save_links iter0 clock0 clock0 {asc ''a''} (crawler0, no_files)))) (asc ''01020304.txt'')
       = map Ch (snapshot_header clock1 1 @ asc ''b'' @ [10])
   \<and> file_data (snd (save_links iter0 clock0 clock0 {asc ''a''} (crawler0, store_abc))) (asc ''all_links.txt'')
       = map Ch (text_abc @ asc ''a'' @ [10])
   \<and> file_data (snd (save_links iter0 clock0 clock0 {asc ''x''}
          (crawler_named_like_snapshot, store_named_like_snapshot))) (asc ''01020304.txt'')
       = map Ch (snapshot_header clock0 1 @ asc ''x'' @ [10] @ asc ''x'' @ [10])"
proof -
  have m: "month clock0 = month clock1 \<and> day clock0 = day clock1 \<and> hour clock0 = hour clock1
      \<and> minute clock0 = minute clock1" by (simp add: clock0_def clock1_def)
  have l: "month clock0 < 100 \<and> day clock0 < 100 \<and> hour clock0 < 100 \<and> minute clock0 < 100"
    by (simp add: clock0_def)
  have n: "{asc ''a''} \<noteq> {} \<and> {asc ''b''} \<noteq> {}" "{asc ''x''} \<noteq> {}" by simp_all
  have t: "file_data store_abc (all_links_file crawler0) = map Ch text_abc"
    by (simp add: file_data_def store_abc_file)
  have a: "all_links_file crawler0 = asc ''all_links.txt''" by (simp add: crawler0_def)
  have b: "all_links_file crawler_named_like_snapshot = asc ''01020304.txt''"
    by (simp add: crawler_named_like_snapshot_def)
  note first = C10_snapshot_replaced_master_appended [where ?t1.0 = clock0 and ?t2.0 = clock1
      and ?new1.0 = "{asc ''a''}" and ?new2.0 = "{asc ''b''}" and st = crawler0 and iter = iter0
      and ?h1.0 = clock0 and ?h2.0 = clock1 and fs = no_files and U = sample_db and env = env_share]
  note second = C10_snapshot_replaced_master_appended [where ?t1.0 = clock0 and ?t2.0 = clock1
      and ?new1.0 = "{asc ''a''}" and ?new2.0 = "{asc ''b''}" and st = crawler0 and iter = iter0
      and ?h1.0 = clock0 and ?h2.0 = clock1 and fs = store_abc and U = sample_db and env = env_share]
  note third = C10_snapshot_replaced_master_appended [where ?t1.0 = clock0 and ?t2.0 = clock1
      and ?new1.0 = "{asc ''x''}" and ?new2.0 = "{asc ''b''}" and st = crawler_named_like_snapshot
      and iter = iter0 and ?h1.0 = clock0 and ?h2.0 = clock1 and fs = store_named_like_snapshot
      and U = sample_db and env = env_share]
  from first l have "get_timestamp_filename clock0 =
        [48 + month clock0 div 10, 48 + month clock0 mod 10, 48 + day clock0 div 10,
         48 + day clock0 mod 10, 48 + hour clock0 div 10, 48 + hour clock0 mod 10,
         48 + minute clock0 div 10, 48 + minute clock0 mod 10] @ asc ''.txt''"
    by blast
  then have 1: "get_timestamp_filename clock0 = asc ''01020304.txt''"
    by (simp add: clock0_def asc_def ch_def)
  from first m have 2: "get_timestamp_filename clock1 = get_timestamp_filename clock0" by blast
  from first n(1) 2 master_not_snapshot
  have "file_data (snd (save_links iter0 clock1 clock1 {asc ''b''}
          (save_links iter0 clock0 clock0 {asc ''a''} (crawler0, no_files))))
          (get_timestamp_filename clock0)
       = map Ch (snapshot_header clock1 (card {asc ''b''}) @ link_lines (iter0 {asc ''b''}))"
    by blast
  then have 3: "file_data (snd (save_links iter0 clock1 clock1 {asc ''b''}
          (save_links iter0 clock0 clock0 {asc ''a''} (crawler0, no_files)))) (asc ''01020304.txt'')
       = map Ch (snapshot_header clock1 1 @ asc ''b'' @ [10])"
    unfolding 1 by (simp add: iter0_single link_lines_def)
  from second master_not_snapshot
  have "file_data (snd (save_links iter0 clock0 clock0 {asc ''a''} (crawler0, store_abc)))
          (all_links_file crawler0)
       = file_data store_abc (all_links_file crawler0)
           @ map Ch (if {asc ''a''} = {} then [] else link_lines (iter0 {asc ''a''}))"
    by blast
  then have 4: "file_data (snd (save_links iter0 clock0 clock0 {asc ''a''} (crawler0, store_abc)))
          (asc ''all_links.txt'') = map Ch (text_abc @ asc ''a'' @ [10])"
    unfolding t unfolding a by (simp add: iter0_single link_lines_def)
  from third snapshot_is_master n(2)
  have "file_data (snd (save_links iter0 clock0 clock0 {asc ''x''}
          (crawler_named_like_snapshot, store_named_like_snapshot)))
          (all_links_file crawler_named_like_snapshot)
       = map Ch (snapshot_header clock0 (card {asc ''x''}) @ link_lines (iter0 {asc ''x''})
           @ link_lines (iter0 {asc ''x''}))"
    by blast
  then have 5: "file_data (snd (save_links iter0 clock0 clock0 {asc ''x''}
          (crawler_named_like_snapshot, store_named_like_snapshot))) (asc ''01020304.txt'')
       = map Ch (snapshot_header clock0 1 @ asc ''x'' @ [10] @ asc ''x'' @ [10])"
    unfolding b by (simp add: iter0_single link_lines_def)
  from 1 2 3 4 5 show ?thesis by (intro conjI)
qed

lemma ed2k_parts_safe: "line_safe sample_db ed2k_head" "line_safe sample_db ed2k_tail"
  by (simp_all add: line_safe_def ed2k_head_def ed2k_tail_def is_space_def asc_def ch_def)

lemma ed2k_parts_differ: "ed2k_link \<noteq> ed2k_head" "ed2k_link \<noteq> ed2k_tail"
  by (simp_all add: ed2k_link_def ed2k_head_def ed2k_tail_def asc_def ch_def)

lemma no_files_data: "file_data no_files path = []"
  by (simp add: file_data_def no_files_def)

lemma no_files_text: "file_text no_files path = []"
  by (simp add: file_text_def no_files_data)

text \<open>
  C4, counterexample. The ed2k link whose file name has a line break is what the
  extraction returns for an entry with that title and summary (\<open>ed2k_extract\<close>).
  Recorded into an empty store and loaded again, it comes back as two strings, neither of
  which is the link: the reloaded set is not the set of the links recorded.
\<close>

theorem C4_line_break_splits_link:
  "reload sample_db (snd (save_links iter0 clock0 clock0 {ed2k_link} (crawler0, no_files))) crawler0
     = {ed2k_head, ed2k_tail}
   \<and> reload sample_db no_files crawler0 \<union> {ed2k_link} = {ed2k_link}
   \<and> ed2k_link \<notin> reload sample_db
         (snd (save_links iter0 clock0 clock0 {ed2k_link} (crawler0, no_files))) crawler0"
proof -
  let ?fs = "snd (save_links iter0 clock0 clock0 {ed2k_link} (crawler0, no_files))"
  have d: "file_data ?fs (all_links_file crawler0) = map Ch (link_lines [ed2k_link])"
    using master_appended [OF master_not_snapshot, of iter0 clock0 "{ed2k_link}" no_files]
    by (simp add: no_files_data iter0_single)
  have v: "Invalid \<notin> set (file_data ?fs (all_links_file crawler0))"
    unfolding d by (rule Invalid_map_Ch)
  have "file_text ?fs (all_links_file crawler0) = link_lines [ed2k_link]"
    unfolding file_text_def d by (rule chars_map_Ch)
  also have "\<dots> = [] @ concat (map (\<lambda>link. link @ [10]) [ed2k_head, ed2k_tail])"
    by (simp add: link_lines_def ed2k_link_def)
  finally have f: "file_text ?fs (all_links_file crawler0)
      = [] @ concat (map (\<lambda>link. link @ [10]) [ed2k_head, ed2k_tail])" .
  have s: "\<forall>l \<in> set [ed2k_head, ed2k_tail]. line_safe sample_db l"
    using ed2k_parts_safe by simp
  then have "\<forall>l \<in> set [ed2k_head, ed2k_tail]. 10 \<notin> set l \<and> 13 \<notin> set l"
    by (simp add: line_safe_def)
  from readlines_append_links [OF _ this, of "[]"]
  have "readlines ([] @ concat (map (\<lambda>link. link @ [10]) [ed2k_head, ed2k_tail]))
      = readlines [] @ map (\<lambda>link. link @ [10]) [ed2k_head, ed2k_tail]"
    by (simp add: newline_ended_def)
  then have "loaded_lines sample_db (readlines (file_text ?fs (all_links_file crawler0)))
      = loaded_lines sample_db (map (\<lambda>link. link @ [10]) [ed2k_head, ed2k_tail])"
    unfolding f by (simp add: readlines_def)
  also have "\<dots> = set [ed2k_head, ed2k_tail]" by (rule loaded_lines_links [OF s])
  finally have 1: "reload sample_db ?fs crawler0 = {ed2k_head, ed2k_tail}"
    by (simp add: reload_text [OF v])
  have 2: "reload sample_db no_files crawler0 = {}"
    by (simp add: reload_text no_files_data no_files_text readlines_def loaded_lines_simps)
  from 1 2 ed2k_parts_differ show ?thesis by simp
qed

lemma share_link_safe: "line_safe sample_db share_link"
  by (simp add: line_safe_def share_link_def is_space_def asc_def ch_def)

text \<open>
  C4, witness: the example link recorded into the store of three lines and loaded again;
  recorded twice, it is in the seen-set once.
\<close>

theorem C4_round_trip_line_safe_witness:
  "reload sample_db (snd (save_links iter0 clock0 clock0 {share_link} (crawler0, store_abc))) crawler0
     = {asc ''a'', asc ''b'', asc ''c'', share_link}
   \<and> crawled_links (fst (save_links iter0 clock1 clock1 {share_link}
         (save_links iter0 clock0 clock0 {share_link} (crawler0, store_abc)))) = {share_link}"
proof -
  have i: "set (iter0 {share_link}) = {share_link}" by (simp add: iter0_single)
  have s: "\<forall>l \<in> {share_link}. line_safe sample_db l" using share_link_safe by simp
  have d: "file_data store_abc (all_links_file crawler0) = map Ch text_abc"
    by (simp add: file_data_def store_abc_file)
  have v: "Invalid \<notin> set (file_data store_abc (all_links_file crawler0))"
    unfolding d by (rule Invalid_map_Ch)
  have x: "file_text store_abc (all_links_file crawler0) = text_abc"
    unfolding file_text_def d by (rule chars_map_Ch)
  have n: "newline_ended (file_text store_abc (all_links_file crawler0))"
    unfolding x by (simp add: newline_ended_def text_abc_def)
  have r: "reload sample_db store_abc crawler0 = {asc ''a'', asc ''b'', asc ''c''}"
    unfolding reload_text [OF v] x by (rule loaded_abc)
  from C4_round_trip_line_safe [where iter = iter0 and new = "{share_link}" and U = sample_db
      and fs = store_abc and st = crawler0 and t_n = clock0 and t_h = clock0
      and ?t_n2.0 = clock1 and ?t_h2.0 = clock1]
    i s v n master_not_snapshot r
  show ?thesis by (simp add: crawler0_def insert_commute)
qed

lemma five_futures:
  "run_tasks five_tasks five_feeds crawler0 =
     ([(asc ''f1'', Returned {asc ''f1'' @ asc ''/s/x''}), (asc ''f2'', Returned {asc ''f2'' @ asc ''/s/x''}),
       (asc ''f3'', Raised (asc ''boom'')), (asc ''f4'', Returned {asc ''f4'' @ asc ''/s/x''}),
       (asc ''f5'', Returned {asc ''f5'' @ asc ''/s/x''})], crawler0)"
proof -
  have "asc ''f1'' \<noteq> asc ''f3''" "asc ''f2'' \<noteq> asc ''f3''" "asc ''f4'' \<noteq> asc ''f3''"
    "asc ''f5'' \<noteq> asc ''f3''" by (simp_all add: asc_def ch_def)
  then show ?thesis by (simp add: five_feeds_def five_tasks_def)
qed

lemma futures_Nil:
  "\<Union>{new_links. \<exists>u. (u, Returned new_links) \<in> set ([] :: (ustr \<times> ustr set result) list)} = {}"
  "{u. \<exists>e. (u, Raised e) \<in> set ([] :: (ustr \<times> ustr set result) list)} = {}"
  by simp_all

text \<open>
  C9, witness: five tasks of which the third raises; the links of the other four are
  merged and the third source alone is recorded as failed.
\<close>

theorem C9_merge_isolates_failures_witness:
  "run_pool five_tasks five_feeds crawler0 =
     ({asc ''f1'' @ asc ''/s/x'', asc ''f2'' @ asc ''/s/x'', asc ''f4'' @ asc ''/s/x'',
       asc ''f5'' @ asc ''/s/x''},
      crawler0\<lparr>failed_feeds := {asc ''f3''}\<rparr>)"
  using C9_merge_isolates_failures [of five_tasks five_feeds crawler0]
  unfolding five_futures prod.case futures_returned_Cons futures_raised_Cons futures_Nil
  by (simp add: crawler0_def insert_commute)

end
